theory Spec2Isabelle
  imports Complex_Main "HOL-Library.Multiset"
begin

section \<open>Importance-sampling estimator (scvi/model/base/\_demixin.py)\<close>

subsection \<open>Self-normalised importance weights (\_inference\_loop)\<close>

text \<open>
  Tensors of log-densities are lists of reals (exact arithmetic in place of floats).
  \<open>torch.logsumexp\<close> over one dimension is the logarithm of the sum of exponentials.
\<close>

definition logsumexp :: "real list \<Rightarrow> real" where
  "logsumexp xs = ln (sum_list (map exp xs))"

text \<open>
  \<open>importance_weight = torch.logsumexp(log_pz.unsqueeze(1) + log_px_zs - log_px
      - torch.logsumexp(log_qz, 1, keepdims=True), dim=1)\<close>:
  one entry per posterior sample \<open>i\<close>; the inner sum runs over the cells \<open>c\<close> of the chunk.
\<close>

definition importance_weight ::
  "real list \<Rightarrow> real list list \<Rightarrow> real list \<Rightarrow> real list list \<Rightarrow> real list" where
  "importance_weight log_pz log_px_zs log_px log_qz =
     map (\<lambda>(pz, (px_z_row, qz_row)).
            logsumexp (map (\<lambda>(px_z, px). pz + px_z - px - logsumexp qz_row) (zip px_z_row log_px)))
         (zip log_pz (zip log_px_zs log_qz))"

text \<open>\<open>log_probs = importance_weight - torch.logsumexp(importance_weight, 0)\<close> and
  \<open>ws = log_probs.exp()\<close>.\<close>

definition log_probs :: "real list \<Rightarrow> real list" where
  "log_probs iw = map (\<lambda>w. w - logsumexp iw) iw"

definition probs :: "real list \<Rightarrow> real list" where
  "probs iw = map exp (log_probs iw)"

subsection \<open>Exceptions\<close>

text \<open>The Python exceptions that the modelled code raises or lets through.\<close>

datatype exn =
    ValueError | IndexError | ZeroDivisionError | NotImplementedError
  | TreeError | RuntimeError | UnboundLocalError | OtherError

subsection \<open>Outlier filtering (filter\_cells)\<close>

text \<open>
  \<open>EllipticEnvelope().fit_predict(qz_m)\<close> is an external collaborator: it either returns
  one label (\<open>1\<close> inlier, \<open>-1\<close> outlier) per row, or raises.
\<close>

datatype fit_outcome = Labels "int list" | FitRaises exn

text \<open>\<open>indices[idx_filt]\<close> with a boolean mask: numpy raises IndexError when the mask and
  the array differ in length.\<close>

definition mask_index :: "'a list \<Rightarrow> bool list \<Rightarrow> exn + 'a list" where
  "mask_index xs msk =
     (if length msk \<noteq> length xs then Inl IndexError
      else Inr (map fst (filter snd (zip xs msk))))"

text \<open>
  \<open>filter_cells\<close>; \<open>qz_ndim\<close> and \<open>qz_rows\<close> are \<open>qz_m.ndim\<close> and \<open>qz_m.shape[0]\<close> of
  the latent representation. Only \<open>ValueError\<close> is caught around the fit; the
  \<open>except IndexError\<close> around the indexing re-raises an IndexError.
\<close>

definition filter_cells :: "nat \<Rightarrow> nat \<Rightarrow> fit_outcome \<Rightarrow> 'a list \<Rightarrow> exn + 'a list" where
  "filter_cells qz_ndim qz_rows fit indices =
     (if qz_ndim \<noteq> 2 \<or> qz_rows \<noteq> length indices then Inl ValueError
      else
        case (case fit of
                Labels ls \<Rightarrow> Inr (map (\<lambda>l. l = 1) ls)
              | FitRaises e \<Rightarrow>
                  if e = ValueError then Inr (replicate qz_rows True) else Inl e) of
          Inl e \<Rightarrow> Inl e
        | Inr idx_filt \<Rightarrow>
            mask_index indices
              (if length (filter (\<lambda>b. b) idx_filt) \<le> 1 then replicate qz_rows True
               else idx_filt))"

subsection \<open>Chunking (get\_population\_expression, step 2)\<close>

text \<open>\<open>int(np.ceil(n_cells / n_cells_per_chunk))\<close>; Python's \<open>/\<close> on two ints raises on a
  zero divisor.\<close>

definition n_cell_chunks :: "nat \<Rightarrow> int \<Rightarrow> exn + int" where
  "n_cell_chunks n_cells n_cells_per_chunk =
     (if n_cells_per_chunk = 0 then Inl ZeroDivisionError
      else Inr \<lceil>real n_cells / real_of_int n_cells_per_chunk\<rceil>)"

text \<open>Consecutive slices of the given sizes (numpy slices between cumulated division points).\<close>

fun split_sizes :: "nat list \<Rightarrow> 'a list \<Rightarrow> 'a list list" where
  "split_sizes [] xs = []"
| "split_sizes (m # ms) xs = take m xs # split_sizes ms (drop m xs)"

text \<open>
  \<open>np.array_split(ary, N)\<close> for an integer \<open>N\<close>: a ValueError unless \<open>N > 0\<close>; else
  \<open>Neach, extras = divmod(len(ary), N)\<close> and sections of sizes
  \<open>extras * [Neach + 1] + (N - extras) * [Neach]\<close>.
\<close>

definition array_split :: "'a list \<Rightarrow> int \<Rightarrow> exn + 'a list list" where
  "array_split ary N =
     (if N \<le> 0 then Inl ValueError
      else
        let Nsections = nat N;
            Neach = length ary div Nsections;
            extras = length ary mod Nsections
        in Inr (split_sizes (replicate extras (Neach + 1) @ replicate (Nsections - extras) Neach) ary))"

text \<open>The slice \<open>xs[:m]\<close>: everything for \<open>None\<close>, a prefix for \<open>m \<ge> 0\<close>, all but the last
  \<open>-m\<close> entries for a negative \<open>m\<close>.\<close>

definition slice_to :: "int option \<Rightarrow> 'a list \<Rightarrow> 'a list" where
  "slice_to m xs =
     (case m of
        None \<Rightarrow> xs
      | Some k \<Rightarrow> if 0 \<le> k then take (nat k) xs else take (length xs - nat (- k)) xs)"

subsection \<open>Samples per cell (get\_population\_expression, step 2)\<close>

text \<open>
  Returns \<open>(n_samples_per_cell, n_samples_overall)\<close> as they stand when the per-chunk loop
  starts: the \<open>if n_samples_overall is not None\<close> branch, then
  \<open>np.minimum(n_samples_per_cell, 100)\<close>.
\<close>

definition samples_per_cell :: "int \<Rightarrow> int option \<Rightarrow> nat \<Rightarrow> exn + (int \<times> int)" where
  "samples_per_cell n_samples n_samples_overall n_cells_used =
     (case n_samples_overall of
        Some overall \<Rightarrow>
          if n_cells_used = 0 then Inl ZeroDivisionError
          else Inr (min (1 + \<lceil>real_of_int overall / real n_cells_used\<rceil>) 100, overall)
      | None \<Rightarrow> Inr (min n_samples 100, n_samples * int n_cells_used))"

subsection \<open>get\_population\_expression\<close>

text \<open>
  The external collaborators of one call: the batch lookup, the latent representation and
  the robust covariance fit used by \<open>filter_cells\<close>, the seeded shuffle, the per-chunk
  inference loop (returning the rows of \<open>hs_weighted\<close>) and \<open>np.random.choice\<close>.
\<close>

record 'i collaborators =
  n_vars :: nat
  h_cols :: nat
  latent_shape :: "'i list \<Rightarrow> nat \<times> nat"
  fit_predict :: "'i list \<Rightarrow> fit_outcome"
  shuffle :: "'i list \<Rightarrow> 'i list"
  inference_loop :: "'i list \<Rightarrow> int \<Rightarrow> real list list"
  random_choice :: "nat \<Rightarrow> int \<Rightarrow> nat list"

text \<open>What a call does to its collaborators, in order.\<close>

datatype 'i event =
    FilterCells "'i list"
  | Shuffle "'i list"
  | InferenceLoop "'i list" int
  | RandomChoice nat int

text \<open>The chunks that the per-chunk loop of a call has processed, in order.\<close>

fun loop_chunks :: "'i event list \<Rightarrow> 'i list list" where
  "loop_chunks [] = []"
| "loop_chunks (InferenceLoop chunk n # evs) = chunk # loop_chunks evs"
| "loop_chunks (ev # evs) = loop_chunks evs"

text \<open>A two-dimensional array: its shape and its rows.\<close>

datatype ndarray = Array (shape: "nat \<times> nat") (rows: "real list list")

text \<open>Step 1: the optional batch restriction; \<open>transform_batch\<close> carries the observed batch
  codes of \<open>adata[indices]\<close> and the code of the requested batch.\<close>

definition effective_indices :: "'i list \<Rightarrow> (int list \<times> int) option \<Rightarrow> exn + 'i list" where
  "effective_indices indices transform_batch =
     (case transform_batch of
        None \<Rightarrow> Inr indices
      | Some (observed_batches, transform_batch_val) \<Rightarrow>
          if length indices \<noteq> length observed_batches then Inl ValueError
          else Inr (map fst (filter (\<lambda>(i, b). b = transform_batch_val) (zip indices observed_batches))))"

text \<open>Step 3: one inference loop per chunk, the rows concatenated, then resampled with
  replacement. The indices come from \<open>np.random.choice\<close>; an index outside the rows would
  be an IndexError of \<open>res[idx]\<close>.\<close>

definition resample :: "'i collaborators \<Rightarrow> 'i list list \<Rightarrow> int \<Rightarrow> int \<Rightarrow> 'i event list \<times> (exn + ndarray)" where
  "resample C chunks n_samples_per_cell n_samples_overall =
     (let res = concat (map (\<lambda>chunk. inference_loop C chunk n_samples_per_cell) chunks);
          idx = random_choice C (length res) n_samples_overall;
          evs = map (\<lambda>chunk. InferenceLoop chunk n_samples_per_cell) chunks
                @ [RandomChoice (length res) n_samples_overall]
      in if list_ex (\<lambda>i. length res \<le> i) idx then (evs, Inl IndexError)
         else (evs, Inr (Array (length idx, h_cols C) (map (\<lambda>i. res ! i) idx))))"

text \<open>From \<open>n_cells_used = np.concatenate(cell_chunks).shape[0]\<close> (a ValueError for an
  empty list of chunks) to the end of the function.\<close>

definition sample_chunks ::
  "'i collaborators \<Rightarrow> int \<Rightarrow> int option \<Rightarrow> 'i list list \<Rightarrow> 'i event list \<times> (exn + ndarray)" where
  "sample_chunks C n_samples n_samples_overall chunks =
     (if chunks = [] then ([], Inl ValueError)
      else
        case samples_per_cell n_samples n_samples_overall (length (concat chunks)) of
          Inl e \<Rightarrow> ([], Inl e)
        | Inr (per_cell, overall) \<Rightarrow> resample C chunks per_cell overall)"

text \<open>
  Step 2 and step 3 on the filtered indices: \<open>n_cell_chunks\<close> from the number of cells, the
  seeded shuffle, \<open>cell_chunks = np.array_split(indices_, n_cell_chunks)[:max_chunks]\<close>, then
  the sampling.
\<close>

definition chunk_and_sample ::
  "'i collaborators \<Rightarrow> int \<Rightarrow> int option \<Rightarrow> int \<Rightarrow> int option \<Rightarrow> 'i list \<Rightarrow>
   'i event list \<times> (exn + ndarray)" where
  "chunk_and_sample C n_samples n_samples_overall n_cells_per_chunk max_chunks indices2 =
     (case n_cell_chunks (length indices2) n_cells_per_chunk of
        Inl e \<Rightarrow> ([], Inl e)
      | Inr n \<Rightarrow>
          (case array_split (shuffle C indices2) n of
             Inl e \<Rightarrow> ([Shuffle indices2], Inl e)
           | Inr all_chunks \<Rightarrow>
               (let r = sample_chunks C n_samples n_samples_overall (slice_to max_chunks all_chunks)
                in (Shuffle indices2 # fst r, snd r))))"

text \<open>The optional call of \<open>self.filter_cells\<close>.\<close>

definition maybe_filter :: "'i collaborators \<Rightarrow> bool \<Rightarrow> 'i list \<Rightarrow> 'i event list \<times> (exn + 'i list)" where
  "maybe_filter C do_filter indices1 =
     (if do_filter
      then ([FilterCells indices1],
            filter_cells (fst (latent_shape C indices1)) (snd (latent_shape C indices1))
              (fit_predict C indices1) indices1)
      else ([], Inr indices1))"

definition get_population_expression ::
  "'i collaborators \<Rightarrow> 'i list \<Rightarrow> int \<Rightarrow> int option \<Rightarrow> bool \<Rightarrow> (int list \<times> int) option \<Rightarrow>
   int \<Rightarrow> int option \<Rightarrow> 'i event list \<times> (exn + ndarray)" where
  "get_population_expression C indices n_samples n_samples_overall do_filter transform_batch
       n_cells_per_chunk max_chunks =
     (case effective_indices indices transform_batch of
        Inl e \<Rightarrow> ([], Inl e)
      | Inr indices1 \<Rightarrow>
          if length indices1 = 0 then ([], Inr (Array (0, n_vars C) []))
          else
            (case maybe_filter C do_filter indices1 of
               (ev1, Inl e) \<Rightarrow> (ev1, Inl e)
             | (ev1, Inr indices2) \<Rightarrow>
                 (let r = chunk_and_sample C n_samples n_samples_overall n_cells_per_chunk
                            max_chunks indices2
                  in (ev1 @ fst r, snd r))))"

text \<open>A small concrete set of collaborators, for evaluating the function.\<close>

definition example_collaborators :: "nat collaborators" where
  "example_collaborators =
     \<lparr>n_vars = 2, h_cols = 2,
      latent_shape = (\<lambda>xs. (2, length xs)),
      fit_predict = (\<lambda>xs. FitRaises ValueError),
      shuffle = rev,
      inference_loop = (\<lambda>chunk n. map (\<lambda>i. [real i, 1]) chunk),
      random_choice = (\<lambda>n size. [0])\<rparr>"

section \<open>Tree message passing (scvi/models/treevae.py)\<close>

subsection \<open>The tree and its annotations\<close>

text \<open>
  An ete3 tree: every node has a name and an ordered list of children. A node is identified
  by its path from the root of \<open>self.tree\<close> (the list of child positions); \<open>up\<close> of a
  non-root node is the path without its last step.
\<close>

datatype tree = Node (name: string) (children: "tree list")

type_synonym node = "nat list"

fun subtree :: "tree \<Rightarrow> node \<Rightarrow> tree option" where
  "subtree t [] = Some t"
| "subtree (Node n ts) (i # p) = (if i < length ts then subtree (ts ! i) p else None)"

definition is_node :: "tree \<Rightarrow> node \<Rightarrow> bool" where
  "is_node T p = (subtree T p \<noteq> None)"

definition name_at :: "tree \<Rightarrow> node \<Rightarrow> string" where
  "name_at T p = (case subtree T p of Some t \<Rightarrow> name t | None \<Rightarrow> [])"

text \<open>\<open>incident_nodes = [c for c in root_node.children]\<close>, followed by \<open>root_node.up\<close>
  unless \<open>root_node.is_root()\<close>.\<close>

definition incident_nodes :: "tree \<Rightarrow> node \<Rightarrow> node list" where
  "incident_nodes T p =
     (case subtree T p of
        None \<Rightarrow> []
      | Some t \<Rightarrow> map (\<lambda>i. p @ [i]) [0..<length (children t)]
                  @ (if p = [] then [] else [butlast p]))"

text \<open>The nodes at a given depth, left to right, and the level-order traversal that ete3's
  \<open>traverse()\<close> uses by default.\<close>

fun level :: "tree \<Rightarrow> nat \<Rightarrow> node list" where
  "level t 0 = [[]]"
| "level (Node n ts) (Suc k) = concat (map (\<lambda>i. map ((#) i) (level (ts ! i) k)) [0..<length ts])"

fun height :: "tree \<Rightarrow> nat" where
  "height (Node n ts) = fold max (map (\<lambda>t. Suc (height t)) ts) 0"

definition traverse :: "tree \<Rightarrow> node list" where
  "traverse T = concat (map (level T) [0..<Suc (height T)])"

text \<open>\<open>self.tree & name\<close>: the first node of that name in level order; ete3 raises a TreeError
  when there is none.\<close>

definition search_node :: "tree \<Rightarrow> string \<Rightarrow> node option" where
  "search_node T nm = find (\<lambda>p. name_at T p = nm) (traverse T)"

fun leaf_names :: "tree \<Rightarrow> string list" where
  "leaf_names (Node n ts) = (if ts = [] then [n] else concat (map leaf_names ts))"

text \<open>
  The features that \<open>initialize_visit\<close> and \<open>initialize_messages\<close> attach to a node: the
  \<open>visited\<close> flag and the message \<open>(nu, mu, log_z)\<close>. Numbers are exact reals, a tensor
  \<open>mu\<close> is the list of its entries. The annotations of a tree give the features of each
  node, on trees on which both initialisers have run at least once, so that every feature is
  present. In this section a node holds the contents of its \<open>mu\<close>: this describes the passes
  in which no two nodes refer to one tensor object, as in a pass that starts from
  \<open>initialize_messages\<close> on a tree with distinct node names. The section on tensor objects
  below keeps the references, for the calls in which tensors are shared.
\<close>

record message =
  visited :: bool
  nu :: real
  mu :: "real list"
  log_z :: real

type_synonym annotations = "node \<Rightarrow> message"

text \<open>The fields of a \<open>TreeVAE\<close> that message passing uses.\<close>

record treevae =
  tree :: tree
  prior_root :: string
  root :: string
  barcodes :: "string list"
  n_latent :: nat

text \<open>
  The constructor: the tree (with clades, the collapsed tree that ete3 computes from it) is
  hung below a new node named \<open>prior_root\<close>; \<open>root\<close> is the name of its own root and the
  barcodes are the leaf names of the result, left to right.
\<close>

definition TreeVAE :: "nat \<Rightarrow> tree \<Rightarrow> treevae" where
  "TreeVAE n_lat t =
     \<lparr>tree = Node ''prior_root'' [t], prior_root = ''prior_root'', root = name t,
      barcodes = leaf_names (Node ''prior_root'' [t]), n_latent = n_lat\<rparr>"

subsection \<open>Tensor arithmetic\<close>

text \<open>
  One-dimensional tensors with torch's broadcasting: \<open>a - b\<close> accepts equal lengths or a
  length-one operand on either side; the in-place \<open>a += b\<close> only broadcasts \<open>b\<close>. Any other
  combination of shapes is a RuntimeError.
\<close>

definition tensor_sub :: "real list \<Rightarrow> real list \<Rightarrow> exn + real list" where
  "tensor_sub a b =
     (if length a = length b then Inr (map2 (-) a b)
      else if length b = 1 then Inr (map (\<lambda>x. x - hd b) a)
      else if length a = 1 then Inr (map (\<lambda>y. hd a - y) b)
      else Inl RuntimeError)"

definition tensor_iadd :: "real list \<Rightarrow> real list \<Rightarrow> exn + real list" where
  "tensor_iadd a b =
     (if length a = length b then Inr (map2 (+) a b)
      else if length b = 1 then Inr (map (\<lambda>x. x + hd b) a)
      else Inl RuntimeError)"

text \<open>\<open>torch.sum(v ** 2).item()\<close>.\<close>

definition sum_sq :: "real list \<Rightarrow> real" where
  "sum_sq v = sum_list (map (\<lambda>x. x ^ 2) v)"

subsection \<open>Combining the incoming messages\<close>

text \<open>\<open>product_without(L, exclude)\<close>.\<close>

definition product_without :: "real list \<Rightarrow> nat list \<Rightarrow> real" where
  "product_without L exclude =
     fold (\<lambda>(idx, x) prod. if idx \<in> set exclude then prod else prod * x) (enumerate 0 L) 1"

text \<open>
  The first loop of the branch \<open>n >= 2\<close>: for each incoming message \<open>k\<close>,
  \<open>children_nu[i] = k.nu + 1.0\<close>, \<open>root_node.nu += 1. / children_nu[i]\<close> (Python floats: a
  ZeroDivisionError on a zero divisor), \<open>children_mu[i] = k.mu / children_nu[i]\<close> and
  \<open>root_node.mu += children_mu[i]\<close>. The message returned with an exception is the one the
  node holds when it is raised.
\<close>

fun accumulate :: "message list \<Rightarrow> message \<Rightarrow> exn option \<times> message" where
  "accumulate [] m = (None, m)"
| "accumulate (k # ks) m =
     (if nu k + 1 = 0 then (Some ZeroDivisionError, m)
      else
        case tensor_iadd (mu m) (map (\<lambda>x. x / (nu k + 1)) (mu k)) of
          Inl e \<Rightarrow> (Some e, m\<lparr>nu := nu m + 1 / (nu k + 1)\<rparr>)
        | Inr v \<Rightarrow> accumulate ks (m\<lparr>nu := nu m + 1 / (nu k + 1), mu := v\<rparr>))"

text \<open>\<open>t\<close>: the sum over \<open>excluded_idx\<close> of \<open>product_without(children_nu, [excluded_idx])\<close>.\<close>

definition find_t :: "real list \<Rightarrow> real" where
  "find_t children_nu =
     fold (\<lambda>excluded_idx t. t + product_without children_nu [excluded_idx])
       [0..<length children_nu] 0"

text \<open>
  The inner loop over \<open>h\<close> for one \<open>j\<close>: it only assigns \<open>prod_2\<close>, so after it \<open>prod_2\<close> is the
  product for the last \<open>h \<noteq> j\<close> (or what an earlier \<open>j\<close> left) and \<open>h\<close> is the last index.
\<close>

definition inner_loop :: "real list \<Rightarrow> nat \<Rightarrow> real option \<times> nat option \<Rightarrow> real option \<times> nat option" where
  "inner_loop children_nu j st =
     fold (\<lambda>h (prod_2, h_old).
             if h = j then (prod_2, Some h)
             else (Some (product_without children_nu [j, h]), Some h))
       [0..<length children_nu] st"

text \<open>
  The outer loop over \<open>j\<close>. The three statements after the inner loop are at the depth of
  the outer loop in the source, so they run once per \<open>j\<close>, with \<open>k = incoming_messages[h]\<close>
  for the final \<open>h\<close> and \<open>l = incoming_messages[j]\<close>:
  \<open>Z_3 += prod_2 * torch.sum((k.mu - l.mu) ** 2).item()\<close>.
\<close>

fun outer_loop ::
  "message list \<Rightarrow> real list \<Rightarrow> nat list \<Rightarrow> real \<times> real option \<times> nat option \<Rightarrow> exn + real" where
  "outer_loop inc children_nu [] (Z_3, prod_2, h) = Inr Z_3"
| "outer_loop inc children_nu (j # js) (Z_3, prod_2, h) =
     (case inner_loop children_nu j (prod_2, h) of
        (Some p, Some h') \<Rightarrow>
          (case tensor_sub (mu (inc ! h')) (mu (inc ! j)) of
             Inl e \<Rightarrow> Inl e
           | Inr diff \<Rightarrow> outer_loop inc children_nu js (Z_3 + p * sum_sq diff, Some p, Some h'))
      | _ \<Rightarrow> Inl UnboundLocalError)"

text \<open>
  The branch \<open>n >= 2\<close> on the node's message \<open>m\<close> and the incoming messages. The two
  divisions \<open>1. / root_node.nu\<close> and \<open>-0.5 / t\<close> are on Python floats and raise on zero.
  \<open>np.log(t)\<close> does not raise; for \<open>t <= 0\<close> numpy gives \<open>nan\<close> or \<open>-inf\<close>, which the reals
  do not have, so \<open>log_z\<close> stands for the source's value only where \<open>t > 0\<close> (as it is
  whenever no incoming \<open>nu\<close> is negative).
\<close>

definition combine :: "nat \<Rightarrow> message \<Rightarrow> message list \<Rightarrow> exn option \<times> message" where
  "combine d m inc =
     (case accumulate inc m of
        (Some e, m1) \<Rightarrow> (Some e, m1)
      | (None, m1) \<Rightarrow>
          if nu m1 = 0 then (Some ZeroDivisionError, m1)
          else
            let m2 = m1\<lparr>nu := 1 / nu m1\<rparr>;
                m3 = m2\<lparr>mu := map (\<lambda>x. x * nu m2) (mu m2)\<rparr>;
                n = length inc;
                children_nu = map (\<lambda>k. nu k + 1) inc;
                t = find_t children_nu;
                Z_1 = - 0.5 * real (n - 1) * real d * ln (2 * pi);
                Z_2 = - 0.5 * real d * ln t
            in case outer_loop inc children_nu [0..<n] (0, None, None) of
                 Inl e \<Rightarrow> (Some e, m3)
               | Inr Z_3 \<Rightarrow>
                   if t = 0 then (Some ZeroDivisionError, m3)
                   else (None, m3\<lparr>log_z := Z_1 + Z_2 + Z_3 * (- 0.5 / t)\<rparr>))"

text \<open>The \<open>if n == 0 / elif n == 1 / elif n >= 2 / else\<close> chain after the neighbours have been
  visited.\<close>

definition update_node :: "nat \<Rightarrow> message \<Rightarrow> message list \<Rightarrow> exn option \<times> message" where
  "update_node d m inc =
     (let n = length inc in
      if n = 0 then (None, m)
      else if n = 1 then (None, m\<lparr>nu := nu (inc ! 0) + 1, mu := mu (inc ! 0), log_z := 0\<rparr>)
      else if n \<ge> 2 then combine d m inc
      else (Some NotImplementedError, m))"

subsection \<open>perform\_message\_passing\<close>

text \<open>
  The recursion of \<open>perform_message_passing\<close> and its loop over the incident nodes. Every
  call looks the prior node up by name first. The result is the exception raised, if any, and
  the annotations as the call leaves them.
\<close>

function (domintros)
  perform_message_passing ::
    "treevae \<Rightarrow> node \<Rightarrow> nat \<Rightarrow> bool \<Rightarrow> annotations \<Rightarrow> exn option \<times> annotations"
  and visit_incident ::
    "treevae \<Rightarrow> node list \<Rightarrow> nat \<Rightarrow> bool \<Rightarrow> node \<Rightarrow> annotations \<Rightarrow> node list \<Rightarrow>
     exn option \<times> annotations \<times> node list"
where
  "perform_message_passing M root_node d include_prior s =
     (case search_node (tree M) (prior_root M) of
        None \<Rightarrow> (Some TreeError, s)
      | Some prior_node \<Rightarrow>
          (case visit_incident M (incident_nodes (tree M) root_node) d include_prior prior_node
                  (s(root_node := (s root_node)\<lparr>visited := True\<rparr>)) [] of
             (Some e, s1, incoming) \<Rightarrow> (Some e, s1)
           | (None, s1, incoming) \<Rightarrow>
               (case update_node d (s1 root_node) (map s1 incoming) of
                  (r, m) \<Rightarrow> (r, s1(root_node := m)))))"
| "visit_incident M [] d include_prior prior_node s incoming = (None, s, incoming)"
| "visit_incident M (node # nodes) d include_prior prior_node s incoming =
     (if \<not> visited (s node) \<and> (node \<noteq> prior_node \<or> (node = prior_node \<and> include_prior)) then
        (case perform_message_passing M node d include_prior s of
           (Some e, s1) \<Rightarrow> (Some e, s1, incoming)
         | (None, s1) \<Rightarrow>
             visit_incident M nodes d include_prior prior_node s1 (incoming @ [node]))
      else visit_incident M nodes d include_prior prior_node s incoming)"
  by pat_completeness auto

subsection \<open>Termination of the pass\<close>

lemma accumulate_visited: "visited (snd (accumulate ks m)) = visited m"
  by (induction ks arbitrary: m) (auto split: sum.splits)

lemma combine_visited: "visited (snd (combine d m inc)) = visited m"
  using accumulate_visited [of inc m]
  by (auto simp: combine_def Let_def split: prod.splits option.splits sum.splits)

lemma update_node_visited: "visited (snd (update_node d m inc)) = visited m"
  by (simp add: update_node_def Let_def combine_visited)


lemma visited_mono_partial:
  "perform_message_passing_visit_incident_dom (Inl (M, v, d, ip, s)) \<Longrightarrow>
     (\<forall>p. visited (s p) \<longrightarrow> visited (snd (perform_message_passing M v d ip s) p))"
  "perform_message_passing_visit_incident_dom (Inr (M, ws, d, ip, pn, s, inc)) \<Longrightarrow>
     (\<forall>p. visited (s p) \<longrightarrow> visited (fst (snd (visit_incident M ws d ip pn s inc)) p))"
proof (induct rule: perform_message_passing_visit_incident.pinduct)
  case (1 M root_node d include_prior s)
  show ?case
  proof (cases "search_node (tree M) (prior_root M)")
    case None
    then show ?thesis using "1.hyps"(1) by (simp add: perform_message_passing.psimps)
  next
    case (Some pn)
    let ?s0 = "s(root_node := (s root_node)\<lparr>visited := True\<rparr>)"
    obtain r s1 incoming where v: "visit_incident M (incident_nodes (tree M) root_node) d
        include_prior pn ?s0 [] = (r, s1, incoming)"
      by (cases "visit_incident M (incident_nodes (tree M) root_node) d include_prior pn ?s0 []")
    from "1.hyps"(2) [OF Some] have mono: "\<And>p. visited (?s0 p) \<Longrightarrow> visited (s1 p)"
      unfolding v by (metis fst_conv snd_conv)
    have base: "visited (s1 p)" if "visited (s p)" for p
      using mono [of p] that by simp
    show ?thesis
      using "1.hyps"(1) Some v base update_node_visited [of d "s1 root_node" "map s1 incoming"]
      by (auto simp: perform_message_passing.psimps split: option.splits prod.splits)
  qed
next
  case (2 M d include_prior prior_node s incoming)
  then show ?case by (simp add: visit_incident.psimps)
next
  case (3 M node nodes d include_prior prior_node s incoming)
  show ?case
  proof (cases "\<not> visited (s node) \<and> (node \<noteq> prior_node \<or> node = prior_node \<and> include_prior)")
    case True
    obtain r s1 where c: "perform_message_passing M node d include_prior s = (r, s1)"
      by (cases "perform_message_passing M node d include_prior s")
    from "3.hyps"(2) [OF True] have m1: "\<And>p. visited (s p) \<Longrightarrow> visited (s1 p)"
      unfolding c by (metis fst_conv snd_conv)
    show ?thesis
    proof (cases r)
      case None
      from "3.hyps"(3) [OF True c [symmetric] None]
      have "\<And>p. visited (s1 p) \<Longrightarrow> visited (fst (snd (visit_incident M nodes d include_prior
              prior_node s1 (incoming @ [node]))) p)" by simp
      with m1 show ?thesis using "3.hyps"(1) True c None
        by (simp add: visit_incident.psimps)
    next
      case (Some e)
      with m1 show ?thesis using "3.hyps"(1) True c
        by (simp add: visit_incident.psimps)
    qed
  next
    case False
    from "3.hyps"(4) [OF False] show ?thesis using "3.hyps"(1) False
      by (auto simp: visit_incident.psimps)
  qed
qed

lemma subtree_append:
  "subtree T (p @ q) = (case subtree T p of None \<Rightarrow> None | Some t \<Rightarrow> subtree t q)"
proof (induction p arbitrary: T)
  case Nil
  then show ?case by simp
next
  case (Cons i p)
  then show ?case by (cases T) simp
qed

lemma is_node_butlast: "is_node T p \<Longrightarrow> is_node T (butlast p)"
proof (cases p rule: rev_cases)
  case Nil
  then show "is_node T p \<Longrightarrow> is_node T (butlast p)" by simp
next
  case (snoc q i)
  then show "is_node T p \<Longrightarrow> is_node T (butlast p)"
    by (auto simp: is_node_def subtree_append split: option.splits)
qed

lemma incident_is_node: "w \<in> set (incident_nodes T v) \<Longrightarrow> is_node T w"
proof -
  assume w: "w \<in> set (incident_nodes T v)"
  then obtain t where t: "subtree T v = Some t"
    by (cases "subtree T v") (auto simp: incident_nodes_def)
  then have v: "is_node T v" by (simp add: is_node_def)
  from w t consider i where "i < length (children t)" "w = v @ [i]" | "w = butlast v"
    by (auto simp: incident_nodes_def split: if_splits)
  then show "is_node T w"
  proof cases
    case 1
    then show ?thesis using t
      by (cases t) (simp add: is_node_def subtree_append)
  next
    case 2
    then show ?thesis using v by (simp add: is_node_butlast)
  qed
qed

lemma finite_nodes: "finite {p. is_node T p}"
proof (induction T)
  case (Node n ts)
  have "{p. is_node (Node n ts) p}
          \<subseteq> insert [] (\<Union>i\<in>{..<length ts}. (#) i ` {p. is_node (ts ! i) p})"
  proof
    fix p assume "p \<in> {p. is_node (Node n ts) p}"
    then show "p \<in> insert [] (\<Union>i\<in>{..<length ts}. (#) i ` {p. is_node (ts ! i) p})"
      by (cases p) (auto simp: is_node_def split: if_splits)
  qed
  moreover have "finite (insert [] (\<Union>i\<in>{..<length ts}. (#) i ` {p. is_node (ts ! i) p}))"
    using Node.IH by (auto intro!: finite_imageI)
  ultimately show ?case by (rule finite_subset)
qed

text \<open>The recursion ends because every call on a neighbour marks one more node of the finite
  tree, and flags are never cleared.\<close>

definition unvisited :: "tree \<Rightarrow> node set \<Rightarrow> annotations \<Rightarrow> node set" where
  "unvisited T extra s = {p. (is_node T p \<or> p \<in> extra) \<and> \<not> visited (s p)}"

lemma finite_unvisited: "finite extra \<Longrightarrow> finite (unvisited T extra s)"
proof -
  assume "finite extra"
  then have "finite ({p. is_node T p} \<union> extra)" using finite_nodes by simp
  moreover have "unvisited T extra s \<subseteq> {p. is_node T p} \<union> extra"
    by (auto simp: unvisited_def)
  ultimately show ?thesis by (rule rev_finite_subset)
qed

definition pass_measure ::
  "treevae \<times> node \<times> nat \<times> bool \<times> annotations
   + treevae \<times> node list \<times> nat \<times> bool \<times> node \<times> annotations \<times> node list
   \<Rightarrow> nat \<times> nat \<times> nat" where
  "pass_measure x =
     (case x of
        Inl (M, v, d, ip, s) \<Rightarrow> (card (unvisited (tree M) {} s - {v}), 1, 0)
      | Inr (M, ws, d, ip, pn, s, inc) \<Rightarrow> (card (unvisited (tree M) (set ws) s), 0, length ws))"

lemma lex_le_less:
  "a' \<le> a \<Longrightarrow> c' < c \<Longrightarrow>
   ((a', 0 :: nat, c'), (a :: nat, 0, c :: nat)) \<in> less_than <*lex*> less_than <*lex*> less_than"
  by auto

lemma pass_total: "All perform_message_passing_visit_incident_dom"
proof (relation "inv_image (less_than <*lex*> less_than <*lex*> less_than) pass_measure")
  show "wf (inv_image (less_than <*lex*> less_than <*lex*> less_than) pass_measure)"
    by (intro wf_inv_image wf_lex_prod wf_less_than)
next
  fix M :: treevae and root_node d include_prior and s :: annotations and x2 :: node
  let ?s0 = "s(root_node := (s root_node)\<lparr>visited := True\<rparr>)"
  have "unvisited (tree M) (set (incident_nodes (tree M) root_node)) ?s0
          = unvisited (tree M) {} s - {root_node}"
    by (auto simp: unvisited_def dest: incident_is_node)
  then show "(Inr (M, incident_nodes (tree M) root_node, d, include_prior, x2, ?s0, []),
              Inl (M, root_node, d, include_prior, s))
             \<in> inv_image (less_than <*lex*> less_than <*lex*> less_than) pass_measure"
    by (simp add: pass_measure_def)
next
  fix M :: treevae and node nodes d include_prior and prior_node :: node
    and s :: annotations and incoming :: "node list"
  assume g: "\<not> visited (s node) \<and> (node \<noteq> prior_node \<or> node = prior_node \<and> include_prior)"
  have "unvisited (tree M) {} s - {node} \<subset> unvisited (tree M) (set (node # nodes)) s"
    using g by (auto simp: unvisited_def)
  then have "card (unvisited (tree M) {} s - {node})
               < card (unvisited (tree M) (set (node # nodes)) s)"
    by (intro psubset_card_mono finite_unvisited) simp_all
  then show "(Inl (M, node, d, include_prior, s),
              Inr (M, node # nodes, d, include_prior, prior_node, s, incoming))
             \<in> inv_image (less_than <*lex*> less_than <*lex*> less_than) pass_measure"
    by (simp add: pass_measure_def)
next
  fix M :: treevae and node nodes d include_prior and prior_node :: node
    and s :: annotations and incoming :: "node list" and x :: "exn option" and y :: annotations
  assume g: "\<not> visited (s node) \<and> (node \<noteq> prior_node \<or> node = prior_node \<and> include_prior)"
    and r: "(x, y) = perform_message_passing M node d include_prior s"
    and dom: "perform_message_passing_visit_incident_dom (Inl (M, node, d, include_prior, s))"
  from visited_mono_partial(1) [OF dom] r [symmetric]
  have mono: "\<And>p. visited (s p) \<Longrightarrow> visited (y p)" by simp
  have "unvisited (tree M) (set nodes) y \<subseteq> unvisited (tree M) (set (node # nodes)) s"
    using mono by (auto simp: unvisited_def)
  then have "card (unvisited (tree M) (set nodes) y)
               \<le> card (unvisited (tree M) (set (node # nodes)) s)"
    by (intro card_mono finite_unvisited) simp_all
  then show "(Inr (M, nodes, d, include_prior, prior_node, y, incoming @ [node]),
              Inr (M, node # nodes, d, include_prior, prior_node, s, incoming))
             \<in> inv_image (less_than <*lex*> less_than <*lex*> less_than) pass_measure"
    unfolding in_inv_image pass_measure_def by (simp only: sum.case prod.case) (rule lex_le_less, simp_all)
next
  fix M :: treevae and node nodes d include_prior and prior_node :: node
    and s :: annotations and incoming :: "node list"
  have "unvisited (tree M) (set nodes) s \<subseteq> unvisited (tree M) (set (node # nodes)) s"
    by (auto simp: unvisited_def)
  then have "card (unvisited (tree M) (set nodes) s)
               \<le> card (unvisited (tree M) (set (node # nodes)) s)"
    by (intro card_mono finite_unvisited) simp_all
  then show "(Inr (M, nodes, d, include_prior, prior_node, s, incoming),
              Inr (M, node # nodes, d, include_prior, prior_node, s, incoming))
             \<in> inv_image (less_than <*lex*> less_than <*lex*> less_than) pass_measure"
    unfolding in_inv_image pass_measure_def by (simp only: sum.case prod.case) (rule lex_le_less, simp_all)
qed

termination perform_message_passing
  by (rule pass_total)

declare perform_message_passing.simps [simp del]

lemma visited_mono:
  "visited (s p) \<Longrightarrow> visited (snd (perform_message_passing M v d ip s) p)"
  using visited_mono_partial(1) [of M v d ip s] pass_total by simp

lemma visited_mono_visit:
  "visited (s p) \<Longrightarrow> visited (fst (snd (visit_incident M ws d ip pn s inc)) p)"
  using visited_mono_partial(2) [of M ws d ip pn s inc] pass_total by simp

subsection \<open>Initialisation and the posterior query\<close>

text \<open>\<open>initialize_visit\<close>: \<open>visited = False\<close> on every node of the tree (the order of the
  traversal does not matter for these independent assignments).\<close>

definition initialize_visit :: "treevae \<Rightarrow> annotations \<Rightarrow> annotations" where
  "initialize_visit M s = (\<lambda>p. if is_node (tree M) p then (s p)\<lparr>visited := False\<rparr> else s p)"

text \<open>
  \<open>initialize_messages\<close>: the dictionaries are filled from the rows of the evidence
  (\<open>barcodes[i]\<close> is an IndexError when there are more rows than barcodes), then the entry
  of the prior root is set; \<open>dic_nu\<close> and \<open>dic_log_z\<close> hold 0 for every key, as do the
  defaults. Every node of the tree gets \<open>nu = 0\<close>, \<open>log_z = 0\<close> and the \<open>mu\<close> of its name,
  or zeros; as in \<open>initialize_visit\<close> the order of the traversal does not matter.
\<close>

definition initialize_messages ::
  "treevae \<Rightarrow> real list list \<Rightarrow> string list \<Rightarrow> nat \<Rightarrow> annotations \<Rightarrow> exn + annotations" where
  "initialize_messages M evidence bcs d s =
     (if length bcs < length evidence then Inl IndexError
      else
        let dic_mu = (fold (\<lambda>(b, j) dic. dic(b \<mapsto> j)) (zip bcs evidence) Map.empty)
                       (prior_root M \<mapsto> replicate d 0)
        in Inr (\<lambda>p. if is_node (tree M) p
                     then (s p)\<lparr>nu := 0,
                                mu := (case dic_mu (name_at (tree M) p) of
                                         Some j \<Rightarrow> j
                                       | None \<Rightarrow> replicate d 0),
                                log_z := 0\<rparr>
                     else s p))"

text \<open>The messages that the query starts from: re-initialised only when evidence is given.\<close>

definition query_messages ::
  "treevae \<Rightarrow> real list list option \<Rightarrow> annotations \<Rightarrow> exn + annotations" where
  "query_messages M evidence s =
     (case evidence of
        None \<Rightarrow> Inr s
      | Some ev \<Rightarrow> initialize_messages M ev (barcodes M) (n_latent M) s)"

text \<open>The last two lines of \<open>posterior_predictive_density\<close>: the pass rooted at the query node
  with the prior included, and the node's \<open>(mu, nu)\<close>.\<close>

definition query_pass ::
  "treevae \<Rightarrow> string \<Rightarrow> node \<Rightarrow> annotations \<Rightarrow> (exn + real list \<times> real) \<times> annotations" where
  "query_pass M query_node root_node s =
     (case search_node (tree M) query_node of
        None \<Rightarrow> (Inl TreeError, s)
      | Some q \<Rightarrow>
          (case perform_message_passing M q (length (mu (s root_node))) True s of
             (Some e, s') \<Rightarrow> (Inl e, s')
           | (None, s') \<Rightarrow> (Inr (mu (s' q), nu (s' q)), s')))"

definition posterior_predictive_density ::
  "treevae \<Rightarrow> string \<Rightarrow> real list list option \<Rightarrow> annotations \<Rightarrow>
   (exn + real list \<times> real) \<times> annotations" where
  "posterior_predictive_density M query_node evidence s =
     (case search_node (tree M) (root M) of
        None \<Rightarrow> (Inl TreeError, s)
      | Some root_node \<Rightarrow>
          (case query_messages M evidence (initialize_visit M s) of
             Inl e \<Rightarrow> (Inl e, initialize_visit M s)
           | Inr s2 \<Rightarrow> query_pass M query_node root_node s2))"

text \<open>A small tree for evaluating the functions: a root \<open>r\<close> with the leaves \<open>a\<close> and \<open>b\<close>,
  below the prior root.\<close>

definition example_model :: treevae where
  "example_model = TreeVAE 1 (Node ''r'' [Node ''a'' [], Node ''b'' []])"

definition blank :: message where
  "blank = \<lparr>visited = False, nu = 0, mu = [0], log_z = 0\<rparr>"

text \<open>Two more small trees: a root with three leaves, and a root whose two children each
  have one leaf.\<close>

definition example_star :: treevae where
  "example_star = TreeVAE 1 (Node ''r'' [Node ''a'' [], Node ''b'' [], Node ''c'' []])"

definition example_chain :: treevae where
  "example_chain = TreeVAE 2 (Node ''r'' [Node ''A'' [Node ''a'' []], Node ''B'' [Node ''b'' []]])"

text \<open>The state in which \<open>forward\<close> starts its pass: \<open>initialize_visit\<close>, then
  \<open>initialize_messages\<close> on the latent codes.\<close>

definition forward_start :: "treevae \<Rightarrow> real list list \<Rightarrow> annotations \<Rightarrow> exn + annotations" where
  "forward_start M z s = initialize_messages M z (barcodes M) (n_latent M) (initialize_visit M s)"

subsection \<open>Reference values for the normalising constant\<close>


subsection \<open>The normalising constant as the specification words it\<close>

text \<open>
  \<open>Z3 = -0.5/t\<close> times the sum, over all ordered pairs \<open>j \<noteq> h\<close>, of the product of
  \<open>children_nu\<close> without \<open>j\<close> and \<open>h\<close> times the squared distance of \<open>mu_j\<close> and \<open>mu_h\<close>; and
  \<open>log_z = Z1 + Z2 + Z3\<close>.
\<close>

definition spec_Z_3 :: "message list \<Rightarrow> real" where
  "spec_Z_3 inc =
     (let n = length inc;
          children_nu = map (\<lambda>k. nu k + 1) inc;
          t = find_t children_nu
      in (- 0.5 / t) *
         (\<Sum>j\<leftarrow>[0..<n]. \<Sum>h\<leftarrow>[0..<n].
            if j \<noteq> h
            then product_without children_nu [j, h] * sum_sq (map2 (-) (mu (inc ! j)) (mu (inc ! h)))
            else 0))"

definition spec_log_z :: "nat \<Rightarrow> message list \<Rightarrow> real" where
  "spec_log_z d inc =
     (let n = length inc;
          t = find_t (map (\<lambda>k. nu k + 1) inc)
      in - 0.5 * real (n - 1) * real d * ln (2 * pi) + - 0.5 * real d * ln t + spec_Z_3 inc)"

text \<open>What the loops of the source add up to, in closed form: each message but the last is
  paired with the last message, and with no other.\<close>

definition last_pair_Z_3 :: "message list \<Rightarrow> real" where
  "last_pair_Z_3 inc =
     (let n = length inc;
          children_nu = map (\<lambda>k. nu k + 1) inc;
          t = find_t children_nu
      in (\<Sum>j\<leftarrow>[0..<n - 1].
            product_without children_nu [j, n - 1]
              * sum_sq (map2 (-) (mu (inc ! (n - 1))) (mu (inc ! j)))) * (- 0.5 / t))"

section \<open>Message passing on tensor objects\<close>

subsection \<open>Nodes that refer to tensors\<close>

text \<open>
  In the source a node's \<open>mu\<close> is a reference to a torch tensor. \<open>root_node.mu = k.mu\<close> makes
  two nodes refer to one tensor, and \<open>root_node.mu += ...\<close> and \<open>root_node.mu *= ...\<close> change
  the tensor that the node refers to, for every node that refers to it. The definitions of
  this section keep the references: a node holds the address of its tensor, and the heap maps
  addresses to contents. Everything else is as in the definitions above, which describe the
  passes in which no tensor is shared.
\<close>

record cell =
  visited_c :: bool
  nu_c :: real
  mu_ref :: nat
  log_z_c :: real

record heap =
  cells :: "node \<Rightarrow> cell"
  tensors :: "nat \<Rightarrow> real list"
  fresh :: nat

text \<open>The message that a node shows in a heap.\<close>

definition message_of :: "heap \<Rightarrow> node \<Rightarrow> message" where
  "message_of h p =
     \<lparr>visited = visited_c (cells h p), nu = nu_c (cells h p),
      mu = tensors h (mu_ref (cells h p)), log_z = log_z_c (cells h p)\<rparr>"

text \<open>
  The first loop of the branch \<open>n >= 2\<close> on the node \<open>v\<close>: \<open>children_nu[i] = k.nu + 1.0\<close>,
  \<open>root_node.nu += 1. / children_nu[i]\<close>, then \<open>children_mu[i] = k.mu / children_nu[i]\<close> (a new
  tensor, kept in a local list only) and \<open>root_node.mu += children_mu[i]\<close>, which writes into
  the tensor of \<open>v\<close>.
\<close>

fun accumulate_obj ::
  "node list \<Rightarrow> node \<Rightarrow> heap \<Rightarrow> real list \<Rightarrow> exn option \<times> heap \<times> real list" where
  "accumulate_obj [] v h children_nu = (None, h, children_nu)"
| "accumulate_obj (k # ks) v h children_nu =
     (if nu_c (cells h k) + 1 = 0 then (Some ZeroDivisionError, h, children_nu @ [nu_c (cells h k) + 1])
      else
        case tensor_iadd (tensors h (mu_ref (cells h v)))
               (map (\<lambda>x. x / (nu_c (cells h k) + 1)) (tensors h (mu_ref (cells h k)))) of
          Inl e \<Rightarrow>
            (Some e,
             h\<lparr>cells := (cells h)(v := (cells h v)\<lparr>nu_c := nu_c (cells h v) + 1 / (nu_c (cells h k) + 1)\<rparr>)\<rparr>,
             children_nu @ [nu_c (cells h k) + 1])
        | Inr t \<Rightarrow>
            accumulate_obj ks v
              (h\<lparr>cells := (cells h)(v := (cells h v)\<lparr>nu_c := nu_c (cells h v) + 1 / (nu_c (cells h k) + 1)\<rparr>),
                 tensors := (tensors h)(mu_ref (cells h v) := t)\<rparr>)
              (children_nu @ [nu_c (cells h k) + 1]))"

text \<open>The branch \<open>n >= 2\<close>; \<open>root_node.mu *= root_node.nu\<close> writes into the tensor of \<open>v\<close>, and
  the loops for \<open>Z_3\<close> read the tensors as they are then.\<close>

definition combine_obj :: "nat \<Rightarrow> node \<Rightarrow> node list \<Rightarrow> heap \<Rightarrow> exn option \<times> heap" where
  "combine_obj d v inc h =
     (case accumulate_obj inc v h [] of
        (Some e, h1, children_nu) \<Rightarrow> (Some e, h1)
      | (None, h1, children_nu) \<Rightarrow>
          if nu_c (cells h1 v) = 0 then (Some ZeroDivisionError, h1)
          else
            let h2 = h1\<lparr>cells := (cells h1)(v := (cells h1 v)\<lparr>nu_c := 1 / nu_c (cells h1 v)\<rparr>)\<rparr>;
                h3 = h2\<lparr>tensors := (tensors h2)(mu_ref (cells h2 v) :=
                          map (\<lambda>x. x * nu_c (cells h2 v)) (tensors h2 (mu_ref (cells h2 v))))\<rparr>;
                n = length inc;
                t = find_t children_nu;
                Z_1 = - 0.5 * real (n - 1) * real d * ln (2 * pi);
                Z_2 = - 0.5 * real d * ln t
            in case outer_loop (map (message_of h3) inc) children_nu [0..<n] (0, None, None) of
                 Inl e \<Rightarrow> (Some e, h3)
               | Inr Z_3 \<Rightarrow>
                   if t = 0 then (Some ZeroDivisionError, h3)
                   else (None,
                         h3\<lparr>cells := (cells h3)(v := (cells h3 v)
                               \<lparr>log_z_c := Z_1 + Z_2 + Z_3 * (- 0.5 / t)\<rparr>)\<rparr>))"

text \<open>The chain on the number of incoming messages; for one message \<open>root_node.mu = k.mu\<close>
  copies the reference.\<close>

definition update_node_obj :: "nat \<Rightarrow> node \<Rightarrow> node list \<Rightarrow> heap \<Rightarrow> exn option \<times> heap" where
  "update_node_obj d v inc h =
     (let n = length inc in
      if n = 0 then (None, h)
      else if n = 1 then
        (None, h\<lparr>cells := (cells h)(v := (cells h v)
                   \<lparr>nu_c := nu_c (cells h (inc ! 0)) + 1,
                    mu_ref := mu_ref (cells h (inc ! 0)),
                    log_z_c := 0\<rparr>)\<rparr>)
      else if n \<ge> 2 then combine_obj d v inc h
      else (Some NotImplementedError, h))"

subsection \<open>The pass\<close>

function (domintros)
  perform_message_passing_obj ::
    "treevae \<Rightarrow> node \<Rightarrow> nat \<Rightarrow> bool \<Rightarrow> heap \<Rightarrow> exn option \<times> heap"
  and visit_incident_obj ::
    "treevae \<Rightarrow> node list \<Rightarrow> nat \<Rightarrow> bool \<Rightarrow> node \<Rightarrow> heap \<Rightarrow> node list \<Rightarrow>
     exn option \<times> heap \<times> node list"
where
  "perform_message_passing_obj M root_node d include_prior h =
     (case search_node (tree M) (prior_root M) of
        None \<Rightarrow> (Some TreeError, h)
      | Some prior_node \<Rightarrow>
          (case visit_incident_obj M (incident_nodes (tree M) root_node) d include_prior prior_node
                  (h\<lparr>cells := (cells h)(root_node := (cells h root_node)\<lparr>visited_c := True\<rparr>)\<rparr>) [] of
             (Some e, h1, incoming) \<Rightarrow> (Some e, h1)
           | (None, h1, incoming) \<Rightarrow> update_node_obj d root_node incoming h1))"
| "visit_incident_obj M [] d include_prior prior_node h incoming = (None, h, incoming)"
| "visit_incident_obj M (node # nodes) d include_prior prior_node h incoming =
     (if \<not> visited_c (cells h node)
          \<and> (node \<noteq> prior_node \<or> (node = prior_node \<and> include_prior)) then
        (case perform_message_passing_obj M node d include_prior h of
           (Some e, h1) \<Rightarrow> (Some e, h1, incoming)
         | (None, h1) \<Rightarrow>
             visit_incident_obj M nodes d include_prior prior_node h1 (incoming @ [node]))
      else visit_incident_obj M nodes d include_prior prior_node h incoming)"
  by pat_completeness auto

lemma accumulate_obj_visited:
  "visited_c (cells (fst (snd (accumulate_obj ks v h cnu))) p) = visited_c (cells h p)"
  by (induction ks arbitrary: h cnu) (auto split: sum.splits)

lemma combine_obj_visited: "visited_c (cells (snd (combine_obj d v inc h)) p) = visited_c (cells h p)"
  using accumulate_obj_visited [of inc v h "[]" p]
  by (auto simp: combine_obj_def Let_def split: prod.splits option.splits sum.splits)

lemma update_node_obj_visited:
  "visited_c (cells (snd (update_node_obj d v inc h)) p) = visited_c (cells h p)"
  by (simp add: update_node_obj_def Let_def combine_obj_visited)

lemma visited_mono_obj_partial:
  "perform_message_passing_obj_visit_incident_obj_dom (Inl (M, v, d, ip, h)) \<Longrightarrow>
     (\<forall>p. visited_c (cells h p) \<longrightarrow>
          visited_c (cells (snd (perform_message_passing_obj M v d ip h)) p))"
  "perform_message_passing_obj_visit_incident_obj_dom (Inr (M, ws, d, ip, pn, h, inc)) \<Longrightarrow>
     (\<forall>p. visited_c (cells h p) \<longrightarrow>
          visited_c (cells (fst (snd (visit_incident_obj M ws d ip pn h inc))) p))"
proof (induct rule: perform_message_passing_obj_visit_incident_obj.pinduct)
  case (1 M root_node d include_prior h)
  show ?case
  proof (cases "search_node (tree M) (prior_root M)")
    case None
    then show ?thesis using "1.hyps"(1) by (simp add: perform_message_passing_obj.psimps)
  next
    case (Some pn)
    let ?h0 = "h\<lparr>cells := (cells h)(root_node := (cells h root_node)\<lparr>visited_c := True\<rparr>)\<rparr>"
    obtain r h1 incoming where v: "visit_incident_obj M (incident_nodes (tree M) root_node) d
        include_prior pn ?h0 [] = (r, h1, incoming)"
      by (rule prod_cases3)
    from "1.hyps"(2) [OF Some]
    have mono: "\<And>p. visited_c (cells ?h0 p) \<Longrightarrow> visited_c (cells h1 p)"
      unfolding v by (metis fst_conv snd_conv)
    have base: "visited_c (cells h1 p)" if "visited_c (cells h p)" for p
      using mono [of p] that by simp
    show ?thesis
      using "1.hyps"(1) Some v base update_node_obj_visited [of d root_node incoming h1]
      by (auto simp: perform_message_passing_obj.psimps split: option.splits)
  qed
next
  case (2 M d include_prior prior_node h incoming)
  then show ?case by (simp add: visit_incident_obj.psimps)
next
  case (3 M node nodes d include_prior prior_node h incoming)
  show ?case
  proof (cases "\<not> visited_c (cells h node)
      \<and> (node \<noteq> prior_node \<or> node = prior_node \<and> include_prior)")
    case True
    obtain r h1 where c: "perform_message_passing_obj M node d include_prior h = (r, h1)"
      by (rule prod.exhaust)
    from "3.hyps"(2) [OF True]
    have m1: "\<And>p. visited_c (cells h p) \<Longrightarrow> visited_c (cells h1 p)"
      unfolding c by (metis fst_conv snd_conv)
    show ?thesis
    proof (cases r)
      case None
      from "3.hyps"(3) [OF True c [symmetric] None]
      have "\<And>p. visited_c (cells h1 p) \<Longrightarrow> visited_c (cells (fst (snd (visit_incident_obj M nodes d
              include_prior prior_node h1 (incoming @ [node])))) p)" by simp
      with m1 show ?thesis using "3.hyps"(1) True c None
        by (simp add: visit_incident_obj.psimps)
    next
      case (Some e)
      with m1 show ?thesis using "3.hyps"(1) True c
        by (simp add: visit_incident_obj.psimps)
    qed
  next
    case False
    from "3.hyps"(4) [OF False] show ?thesis using "3.hyps"(1) False
      by (auto simp: visit_incident_obj.psimps)
  qed
qed

definition pass_measure_obj ::
  "treevae \<times> node \<times> nat \<times> bool \<times> heap
   + treevae \<times> node list \<times> nat \<times> bool \<times> node \<times> heap \<times> node list
   \<Rightarrow> nat \<times> nat \<times> nat" where
  "pass_measure_obj x =
     (case x of
        Inl (M, v, d, ip, h) \<Rightarrow> (card (unvisited (tree M) {} (message_of h) - {v}), 1, 0)
      | Inr (M, ws, d, ip, pn, h, inc) \<Rightarrow>
          (card (unvisited (tree M) (set ws) (message_of h)), 0, length ws))"

lemma pass_total_obj: "All perform_message_passing_obj_visit_incident_obj_dom"
proof (relation "inv_image (less_than <*lex*> less_than <*lex*> less_than) pass_measure_obj")
  show "wf (inv_image (less_than <*lex*> less_than <*lex*> less_than) pass_measure_obj)"
    by (intro wf_inv_image wf_lex_prod wf_less_than)
next
  fix M :: treevae and root_node d include_prior and h :: heap and x2 :: node
  let ?h0 = "h\<lparr>cells := (cells h)(root_node := (cells h root_node)\<lparr>visited_c := True\<rparr>)\<rparr>"
  have "unvisited (tree M) (set (incident_nodes (tree M) root_node)) (message_of ?h0)
          = unvisited (tree M) {} (message_of h) - {root_node}"
    by (auto simp: unvisited_def message_of_def dest: incident_is_node)
  then show "(Inr (M, incident_nodes (tree M) root_node, d, include_prior, x2, ?h0, []),
              Inl (M, root_node, d, include_prior, h))
             \<in> inv_image (less_than <*lex*> less_than <*lex*> less_than) pass_measure_obj"
    by (simp add: pass_measure_obj_def)
next
  fix M :: treevae and node nodes d include_prior and prior_node :: node
    and h :: heap and incoming :: "node list"
  assume g: "\<not> visited_c (cells h node)
      \<and> (node \<noteq> prior_node \<or> node = prior_node \<and> include_prior)"
  have "unvisited (tree M) {} (message_of h) - {node}
          \<subset> unvisited (tree M) (set (node # nodes)) (message_of h)"
    using g by (auto simp: unvisited_def message_of_def)
  then have "card (unvisited (tree M) {} (message_of h) - {node})
               < card (unvisited (tree M) (set (node # nodes)) (message_of h))"
    by (intro psubset_card_mono finite_unvisited) simp_all
  then show "(Inl (M, node, d, include_prior, h),
              Inr (M, node # nodes, d, include_prior, prior_node, h, incoming))
             \<in> inv_image (less_than <*lex*> less_than <*lex*> less_than) pass_measure_obj"
    by (simp add: pass_measure_obj_def)
next
  fix M :: treevae and node nodes d include_prior and prior_node :: node
    and h :: heap and incoming :: "node list" and x :: "exn option" and y :: heap
  assume g: "\<not> visited_c (cells h node)
      \<and> (node \<noteq> prior_node \<or> node = prior_node \<and> include_prior)"
    and r: "(x, y) = perform_message_passing_obj M node d include_prior h"
    and dom: "perform_message_passing_obj_visit_incident_obj_dom (Inl (M, node, d, include_prior, h))"
  from visited_mono_obj_partial(1) [OF dom] r [symmetric]
  have mono: "\<And>p. visited_c (cells h p) \<Longrightarrow> visited_c (cells y p)" by simp
  have "unvisited (tree M) (set nodes) (message_of y)
          \<subseteq> unvisited (tree M) (set (node # nodes)) (message_of h)"
    using mono by (auto simp: unvisited_def message_of_def)
  then have "card (unvisited (tree M) (set nodes) (message_of y))
               \<le> card (unvisited (tree M) (set (node # nodes)) (message_of h))"
    by (intro card_mono finite_unvisited) simp_all
  then show "(Inr (M, nodes, d, include_prior, prior_node, y, incoming @ [node]),
              Inr (M, node # nodes, d, include_prior, prior_node, h, incoming))
             \<in> inv_image (less_than <*lex*> less_than <*lex*> less_than) pass_measure_obj"
    unfolding in_inv_image pass_measure_obj_def
    by (simp only: sum.case prod.case) (rule lex_le_less, simp_all)
next
  fix M :: treevae and node nodes d include_prior and prior_node :: node
    and h :: heap and incoming :: "node list"
  have "unvisited (tree M) (set nodes) (message_of h)
          \<subseteq> unvisited (tree M) (set (node # nodes)) (message_of h)"
    by (auto simp: unvisited_def)
  then have "card (unvisited (tree M) (set nodes) (message_of h))
               \<le> card (unvisited (tree M) (set (node # nodes)) (message_of h))"
    by (intro card_mono finite_unvisited) simp_all
  then show "(Inr (M, nodes, d, include_prior, prior_node, h, incoming),
              Inr (M, node # nodes, d, include_prior, prior_node, h, incoming))
             \<in> inv_image (less_than <*lex*> less_than <*lex*> less_than) pass_measure_obj"
    unfolding in_inv_image pass_measure_obj_def
    by (simp only: sum.case prod.case) (rule lex_le_less, simp_all)
qed

termination perform_message_passing_obj
  by (rule pass_total_obj)

declare perform_message_passing_obj.simps [simp del]

subsection \<open>Initialisation and the posterior query on tensor objects\<close>

definition initialize_visit_obj :: "treevae \<Rightarrow> heap \<Rightarrow> heap" where
  "initialize_visit_obj M h =
     h\<lparr>cells := (\<lambda>p. if is_node (tree M) p then (cells h p)\<lparr>visited_c := False\<rparr> else cells h p)\<rparr>"

text \<open>A new tensor with the given contents.\<close>

definition new_tensor :: "real list \<Rightarrow> heap \<Rightarrow> heap" where
  "new_tensor x h = h\<lparr>tensors := (tensors h)(fresh h := x), fresh := Suc (fresh h)\<rparr>"

text \<open>
  \<open>initialize_messages\<close>: the rows of the (double precision) evidence are tensors that the
  dictionary refers to by barcode, the prior root gets a new tensor of zeros, and
  \<open>.type(torch.DoubleTensor)\<close> returns the tensor it is given. In the traversal (level order) a
  node whose name is a key refers to the tensor of that key; any other node gets a new
  tensor of zeros.
\<close>

definition initialize_messages_obj ::
  "treevae \<Rightarrow> real list list \<Rightarrow> string list \<Rightarrow> nat \<Rightarrow> heap \<Rightarrow> exn + heap" where
  "initialize_messages_obj M evidence bcs d h =
     (if length bcs < length evidence then Inl IndexError
      else
        let h1 = fold new_tensor evidence h;
            dic_rows = fold (\<lambda>(b, a) dic. dic(b \<mapsto> a))
                         (zip bcs [fresh h..<fresh h + length evidence]) Map.empty;
            dic_mu = dic_rows(prior_root M \<mapsto> fresh h1);
            h2 = new_tensor (replicate d 0) h1
        in Inr (fold (\<lambda>p h'.
                   case dic_mu (name_at (tree M) p) of
                     Some a \<Rightarrow>
                       h'\<lparr>cells := (cells h')(p := (cells h' p)\<lparr>nu_c := 0, mu_ref := a, log_z_c := 0\<rparr>)\<rparr>
                   | None \<Rightarrow>
                       (new_tensor (replicate d 0) h')
                         \<lparr>cells := (cells h')(p := (cells h' p)
                             \<lparr>nu_c := 0, mu_ref := fresh h', log_z_c := 0\<rparr>)\<rparr>)
                 (traverse (tree M)) h2))"

definition query_messages_obj :: "treevae \<Rightarrow> real list list option \<Rightarrow> heap \<Rightarrow> exn + heap" where
  "query_messages_obj M evidence h =
     (case evidence of
        None \<Rightarrow> Inr h
      | Some ev \<Rightarrow> initialize_messages_obj M ev (barcodes M) (n_latent M) h)"

definition query_pass_obj ::
  "treevae \<Rightarrow> string \<Rightarrow> node \<Rightarrow> heap \<Rightarrow> (exn + real list \<times> real) \<times> heap" where
  "query_pass_obj M query_node root_node h =
     (case search_node (tree M) query_node of
        None \<Rightarrow> (Inl TreeError, h)
      | Some q \<Rightarrow>
          (case perform_message_passing_obj M q (length (mu (message_of h root_node))) True h of
             (Some e, h') \<Rightarrow> (Inl e, h')
           | (None, h') \<Rightarrow> (Inr (mu (message_of h' q), nu (message_of h' q)), h')))"

definition posterior_predictive_density_obj ::
  "treevae \<Rightarrow> string \<Rightarrow> real list list option \<Rightarrow> heap \<Rightarrow> (exn + real list \<times> real) \<times> heap" where
  "posterior_predictive_density_obj M query_node evidence h =
     (case search_node (tree M) (root M) of
        None \<Rightarrow> (Inl TreeError, h)
      | Some root_node \<Rightarrow>
          (case query_messages_obj M evidence (initialize_visit_obj M h) of
             Inl e \<Rightarrow> (Inl e, initialize_visit_obj M h)
           | Inr h2 \<Rightarrow> query_pass_obj M query_node root_node h2))"

text \<open>A heap before any initialisation.\<close>

definition empty_heap :: heap where
  "empty_heap =
     \<lparr>cells = (\<lambda>p. \<lparr>visited_c = False, nu_c = 0, mu_ref = 0, log_z_c = 0\<rparr>),
      tensors = (\<lambda>a. []), fresh = 0\<rparr>"

text \<open>
  The calls \<open>posterior_predictive_density('prior_root', [[0.], [2.]])\<close>, \<open>initialize_visit()\<close>
  and \<open>perform_message_passing(r, 1, False)\<close> on the tree \<open>r(a, b)\<close> below the prior root: the
  heap before and the result of the last call.
\<close>

definition shared_before :: heap where
  "shared_before =
     initialize_visit_obj example_model
       (snd (posterior_predictive_density_obj example_model ''prior_root'' (Some [[0], [2]])
               empty_heap))"

definition shared_after :: "exn option \<times> heap" where
  "shared_after = perform_message_passing_obj example_model [0] 1 False shared_before"

section \<open>Properties of the importance-sampling estimator\<close>

lemma sum_list_exp_pos: "xs \<noteq> [] \<Longrightarrow> 0 < sum_list (map exp (xs :: real list))"
proof (induction xs)
  case Nil
  then show ?case by simp
next
  case (Cons x xs)
  have "0 < exp x" by simp
  moreover have "0 \<le> sum_list (map exp xs)"
    by (rule sum_list_nonneg) auto
  ultimately have "0 < exp x + sum_list (map exp xs)"
    by (rule add_pos_nonneg)
  then show ?case by simp
qed

lemma sum_list_map_divide:
  "sum_list (map (\<lambda>x. f x / (c :: real)) xs) = sum_list (map f xs) / c"
  by (induction xs) (simp_all add: add_divide_distrib)

text \<open>
  C6. For every non-empty finite vector of unnormalised log-importance-weights, the
  normalised log-probabilities \<open>importance_weight - logsumexp(importance_weight)\<close>
  exponentiate to weights that sum to exactly one.
\<close>

theorem probs_sum_one:
  assumes "iw \<noteq> []"
  shows "sum_list (probs iw) = 1"
proof -
  let ?S = "sum_list (map exp iw)"
  have pos: "0 < ?S" using assms by (rule sum_list_exp_pos)
  have "probs iw = map (\<lambda>w. exp w / ?S) iw"
    using pos by (simp add: probs_def log_probs_def logsumexp_def exp_diff)
  then have "sum_list (probs iw) = ?S / ?S"
    by (simp add: sum_list_map_divide)
  then show ?thesis using pos by simp
qed

theorem probs_sum_one_witness:
  "[0, ln 3] \<noteq> ([] :: real list) \<and> probs [0, ln 3] = [1 / 4, 3 / 4] \<and> sum_list (probs [0, ln 3]) = 1"
proof -
  have ne: "[0, ln 3] \<noteq> ([] :: real list)" by simp
  have "probs [0, ln 3] = [1 / 4, 3 / 4]"
    by (simp add: probs_def log_probs_def logsumexp_def exp_diff exp_minus)
  with ne probs_sum_one [OF ne] show ?thesis by simp
qed

lemma mask_index_all: "mask_index xs (replicate (length xs) True) = Inr xs"
proof -
  have "map fst (filter snd (zip ys (replicate (length ys) True))) = ys" for ys :: "'a list"
    by (induction ys) simp_all
  then show ?thesis by (simp add: mask_index_def)
qed

text \<open>
  C7. Once the shape check on the latent means has passed (the robust covariance fit is only
  reached then): if the fit raises the ValueError of a numerical failure, or if its labels
  would retain at most one cell, \<open>filter_cells\<close> returns the input indices unchanged and
  does not raise.
\<close>

theorem filter_cells_fallback:
  assumes "qz_ndim = 2" and "qz_rows = length indices"
    and "fit = FitRaises ValueError \<or> (\<exists>ls. fit = Labels ls \<and> length (filter (\<lambda>l. l = 1) ls) \<le> 1)"
  shows "filter_cells qz_ndim qz_rows fit indices = Inr indices"
proof -
  have cnt: "length (filter (\<lambda>b. b) (map (\<lambda>l. l = 1) ls)) = length (filter (\<lambda>l. l = 1) ls)" for ls :: "int list"
    by (simp add: filter_map comp_def)
  from assms(3) show ?thesis
  proof
    assume "fit = FitRaises ValueError"
    then show ?thesis using assms(1,2) by (simp add: filter_cells_def mask_index_all)
  next
    assume "\<exists>ls. fit = Labels ls \<and> length (filter (\<lambda>l. l = 1) ls) \<le> 1"
    then obtain ls where "fit = Labels ls" "length (filter (\<lambda>l. l = 1) ls) \<le> 1" by blast
    then show ?thesis using assms(1,2) by (simp add: filter_cells_def mask_index_all comp_def)
  qed
qed

theorem filter_cells_fallback_witness:
  "filter_cells 2 3 (FitRaises ValueError) [10, 11, 12 :: nat] = Inr [10, 11, 12]
   \<and> filter_cells 2 3 (Labels [-1, 1, -1]) [10, 11, 12 :: nat] = Inr [10, 11, 12]
   \<and> filter_cells 2 3 (Labels [1, 1, -1]) [10, 11, 12 :: nat] = Inr [10, 11]"
proof -
  have a: "filter_cells 2 3 (FitRaises ValueError) [10, 11, 12 :: nat] = Inr [10, 11, 12]"
    using filter_cells_fallback [of 2 3 "[10, 11, 12 :: nat]" "FitRaises ValueError"] by simp
  have b: "filter_cells 2 3 (Labels [-1, 1, -1]) [10, 11, 12 :: nat] = Inr [10, 11, 12]"
    using filter_cells_fallback [of 2 3 "[10, 11, 12 :: nat]" "Labels [-1, 1, -1]"] by simp
  have c: "filter_cells 2 3 (Labels [1, 1, -1]) [10, 11, 12 :: nat] = Inr [10, 11]"
    by (simp add: filter_cells_def mask_index_def)
  from a b c show ?thesis by simp
qed

lemma length_split_sizes: "length (split_sizes ms xs) = length ms"
  by (induction ms arbitrary: xs) simp_all

lemma concat_split_sizes: "concat (split_sizes ms xs) = take (sum_list ms) xs"
proof (induction ms arbitrary: xs)
  case Nil
  then show ?case by simp
next
  case (Cons m ms)
  show ?case by (simp add: Cons.IH take_add)
qed

lemma array_split_ok:
  assumes "0 < N"
  shows "\<exists>chunks. array_split ary N = Inr chunks \<and> int (length chunks) = N \<and> concat chunks = ary"
proof -
  let ?n = "nat N"
  let ?q = "length ary div ?n"
  let ?r = "length ary mod ?n"
  let ?sizes = "replicate ?r (?q + 1) @ replicate (?n - ?r) ?q"
  have npos: "0 < ?n" using assms by simp
  then have rlt: "?r < ?n" by simp
  have len: "length ?sizes = ?n" using rlt by simp
  have "sum_list ?sizes = ?r * (?q + 1) + (?n - ?r) * ?q"
    by (simp add: sum_list_replicate)
  also have "\<dots> = ?n * ?q + ?r"
    using rlt by (simp add: algebra_simps diff_mult_distrib2) 
  also have "\<dots> = length ary" by simp
  finally have sum: "sum_list ?sizes = length ary" .
  have "array_split ary N = Inr (split_sizes ?sizes ary)"
    using assms by (simp add: array_split_def Let_def)
  moreover have "int (length (split_sizes ?sizes ary)) = N"
    unfolding length_split_sizes len using assms by simp
  moreover have "concat (split_sizes ?sizes ary) = ary"
    unfolding concat_split_sizes sum by simp
  ultimately show ?thesis by blast
qed

lemma loop_chunks_append: "loop_chunks (xs @ ys) = loop_chunks xs @ loop_chunks ys"
  by (induction xs rule: loop_chunks.induct) simp_all

lemma loop_chunks_map: "loop_chunks (map (\<lambda>chunk. InferenceLoop chunk n) chunks) = chunks"
  by (induction chunks) simp_all

lemma resample_loop_chunks: "loop_chunks (fst (resample C chunks per_cell overall)) = chunks"
  by (simp add: resample_def Let_def loop_chunks_append loop_chunks_map)

lemma sample_chunks_loop_chunks:
  assumes "chunks = [] \<or> concat chunks \<noteq> []"
  shows "loop_chunks (fst (sample_chunks C n_samples n_samples_overall chunks)) = chunks"
  using assms
  by (auto simp: sample_chunks_def samples_per_cell_def resample_loop_chunks
      split: option.splits)

text \<open>The first section of \<open>np.array_split\<close> on a non-empty array is not empty.\<close>

lemma array_split_first:
  assumes "0 < N" and "ary \<noteq> []" and "array_split ary N = Inr chunks"
  shows "chunks \<noteq> [] \<and> hd chunks \<noteq> []"
proof -
  let ?n = "nat N"
  let ?q = "length ary div ?n"
  let ?r = "length ary mod ?n"
  have npos: "0 < ?n" using assms(1) by simp
  have chunks: "chunks = split_sizes (replicate ?r (?q + 1) @ replicate (?n - ?r) ?q) ary"
    using assms(1,3) by (simp add: array_split_def Let_def)
  show ?thesis
  proof (cases "?r = 0")
    case True
    then have "length ary = ?n * ?q" by (metis add.right_neutral mult_div_mod_eq)
    with assms(2) have q: "0 < ?q" by (cases "?q = 0") simp_all
    obtain m where m: "?n = Suc m" using npos by (cases ?n) simp_all
    have "chunks = take ?q ary # split_sizes (replicate m ?q) (drop ?q ary)"
      unfolding chunks using True m by simp
    then show ?thesis using q assms(2) by simp
  next
    case False
    then obtain m where m: "?r = Suc m" by (cases ?r) simp_all
    have "chunks = take (?q + 1) ary
                     # split_sizes (replicate m (?q + 1) @ replicate (?n - ?r) ?q) (drop (?q + 1) ary)"
      unfolding chunks using m by simp
    then show ?thesis using assms(2) by simp
  qed
qed

lemma slice_to_prefix:
  "slice_to m xs = [] \<or> (slice_to m xs \<noteq> [] \<and> hd (slice_to m xs) = hd xs)"
  by (cases m) (auto simp: slice_to_def hd_take)

lemma slice_to_all:
  "m = None \<or> (\<exists>k. m = Some k \<and> int (length xs) \<le> k) \<Longrightarrow> slice_to m xs = xs"
  by (auto simp: slice_to_def)

text \<open>\<open>filter_cells\<close> never returns an empty index set for a non-empty one.\<close>

lemma filter_cells_nonempty:
  assumes "filter_cells qz_ndim qz_rows fit xs = Inr ys" and "xs \<noteq> []"
  shows "ys \<noteq> []"
proof -
  have sel: "length (map fst (filter snd (zip zs msk))) = length (filter (\<lambda>b. b) msk)"
    if "length msk = length zs" for zs :: "'a list" and msk
    using that by (induction zs msk rule: list_induct2') simp_all
  from assms(1) obtain msk where msk: "mask_index xs msk = Inr ys"
    and cases: "msk = replicate qz_rows True \<or> 1 < length (filter (\<lambda>b. b) msk)"
    by (auto simp: filter_cells_def split: if_splits sum.splits fit_outcome.splits)
  from msk have len: "length msk = length xs" and ys: "ys = map fst (filter snd (zip xs msk))"
    by (auto simp: mask_index_def split: if_splits)
  from sel [OF len] ys have n: "length ys = length (filter (\<lambda>b. b) msk)" by simp
  from cases show ?thesis
  proof
    assume "msk = replicate qz_rows True"
    with len n assms(2) show ?thesis by auto
  next
    assume "1 < length (filter (\<lambda>b. b) msk)"
    with n show ?thesis by auto
  qed
qed

text \<open>
  C5. In a call of \<open>get_population_expression\<close> whose index set is not empty after the batch
  restriction and the optional outlier filter, with \<open>N\<close> cells left, a positive chunk bound
  \<open>k\<close> and a shuffle that permutes the indices: \<open>np.array_split\<close> produces exactly
  \<open>ceil(N / k)\<close> chunks (exact division), their concatenation is the shuffled index list, so
  that every index occurs in it exactly as often as in the subpopulation, and the chunks that
  the per-chunk loop processes are these chunks cut by \<open>[:max_chunks]\<close>: all of them when
  \<open>max_chunks\<close> does not truncate.
\<close>

theorem cell_chunks_partition:
  assumes "effective_indices indices transform_batch = Inr indices1" and "indices1 \<noteq> []"
    and "maybe_filter C do_filter indices1 = (ev1, Inr indices2)"
    and "0 < k" and "mset (shuffle C indices2) = mset indices2"
  shows "\<exists>chunks.
           array_split (shuffle C indices2) \<lceil>real (length indices2) / real_of_int k\<rceil> = Inr chunks
         \<and> int (length chunks) = \<lceil>real (length indices2) / real_of_int k\<rceil>
         \<and> concat chunks = shuffle C indices2
         \<and> mset (concat chunks) = mset indices2
         \<and> loop_chunks (fst (get_population_expression C indices n_samples n_samples_overall
               do_filter transform_batch k max_chunks)) = slice_to max_chunks chunks
         \<and> (max_chunks = None \<or> (\<exists>m. max_chunks = Some m \<and> int (length chunks) \<le> m)
              \<longrightarrow> loop_chunks (fst (get_population_expression C indices n_samples
                      n_samples_overall do_filter transform_batch k max_chunks)) = chunks)"
proof -
  let ?n = "\<lceil>real (length indices2) / real_of_int k\<rceil>"
  let ?sh = "shuffle C indices2"
  have ne2: "indices2 \<noteq> []"
  proof (cases do_filter)
    case True
    with assms(3) have "filter_cells (fst (latent_shape C indices1)) (snd (latent_shape C indices1))
        (fit_predict C indices1) indices1 = Inr indices2"
      by (simp add: maybe_filter_def)
    from filter_cells_nonempty [OF this assms(2)] show ?thesis .
  next
    case False
    with assms(2,3) show ?thesis by (simp add: maybe_filter_def)
  qed
  then have sh: "?sh \<noteq> []" using assms(5) by (metis mset_zero_iff)
  have "0 < real (length indices2) / real_of_int k"
    using ne2 assms(4) by simp
  then have npos: "0 < ?n" by simp
  from array_split_ok [OF npos, of ?sh] obtain chunks where
    c: "array_split ?sh ?n = Inr chunks" "int (length chunks) = ?n" "concat chunks = ?sh"
    by blast
  from array_split_first [OF npos sh c(1)] have first: "chunks \<noteq> []" "hd chunks \<noteq> []"
    by simp_all
  have n: "n_cell_chunks (length indices2) k = Inr ?n"
    using assms(4) by (simp add: n_cell_chunks_def)
  have ok: "slice_to max_chunks chunks = [] \<or> concat (slice_to max_chunks chunks) \<noteq> []"
  proof (cases "slice_to max_chunks chunks = []")
    case True
    then show ?thesis by simp
  next
    case False
    with slice_to_prefix [of max_chunks chunks] first
    have "hd (slice_to max_chunks chunks) \<noteq> []" by auto
    with False show ?thesis by (cases "slice_to max_chunks chunks") auto
  qed
  have ev1: "loop_chunks ev1 = []"
    using assms(3) by (auto simp: maybe_filter_def split: if_splits)
  have run: "loop_chunks (fst (get_population_expression C indices n_samples n_samples_overall
               do_filter transform_batch k max_chunks)) = slice_to max_chunks chunks"
    using assms(1,2,3) n c(1) ev1 sample_chunks_loop_chunks [OF ok]
    by (simp add: get_population_expression_def chunk_and_sample_def Let_def loop_chunks_append)
  have "loop_chunks (fst (get_population_expression C indices n_samples n_samples_overall
               do_filter transform_batch k max_chunks)) = chunks"
    if "max_chunks = None \<or> (\<exists>m. max_chunks = Some m \<and> int (length chunks) \<le> m)"
    using run slice_to_all [OF that] by simp
  with c run assms(5) show ?thesis by auto
qed

lemma example_run:
  "get_population_expression example_collaborators [0, 1, 2] 150 None False None 2 None =
     ([Shuffle [0, 1, 2], InferenceLoop [2, 1] 100, InferenceLoop [0] 100, RandomChoice 3 450],
      Inr (Array (1, 2) [[2, 1]]))"
proof -
  have "array_split [2, 1, 0 :: nat] 2 = Inr [[2, 1], [0]]"
    by code_simp
  then show ?thesis
    by (simp add: get_population_expression_def effective_indices_def maybe_filter_def
        chunk_and_sample_def n_cell_chunks_def slice_to_def sample_chunks_def
        samples_per_cell_def resample_def example_collaborators_def Let_def)
qed

lemma example_run_five:
  "get_population_expression example_collaborators [3, 1, 2, 0, 4] 25 None False None 2 None =
     ([Shuffle [3, 1, 2, 0, 4], InferenceLoop [4, 0] 25, InferenceLoop [2, 1] 25,
       InferenceLoop [3] 25, RandomChoice 5 125],
      Inr (Array (1, 2) [[4, 1]]))"
proof -
  have "array_split [4, 0, 2, 1, 3 :: nat] 3 = Inr [[4, 0], [2, 1], [3]]"
    by code_simp
  then show ?thesis
    by (simp add: get_population_expression_def effective_indices_def maybe_filter_def
        chunk_and_sample_def n_cell_chunks_def slice_to_def sample_chunks_def
        samples_per_cell_def resample_def example_collaborators_def Let_def)
qed

theorem cell_chunks_partition_witness:
  "loop_chunks (fst (get_population_expression example_collaborators [3, 1, 2, 0, 4] 25 None False
      None 2 None)) = [[4, 0], [2, 1], [3]]
   \<and> (\<exists>chunks. int (length chunks) = 3 \<and> concat chunks = [4, 0, 2, 1, 3 :: nat]
         \<and> loop_chunks (fst (get_population_expression example_collaborators [3, 1, 2, 0, 4] 25
               None False None 2 None)) = chunks)"
proof -
  have e: "effective_indices [3, 1, 2, 0, 4 :: nat] None = Inr [3, 1, 2, 0, 4]"
    by (simp add: effective_indices_def)
  have ne: "[3, 1, 2, 0, 4 :: nat] \<noteq> []" by simp
  have f: "maybe_filter example_collaborators False [3, 1, 2, 0, 4] = ([], Inr [3, 1, 2, 0, 4])"
    by (simp add: maybe_filter_def)
  have k: "(0 :: int) < 2" by simp
  have sh: "shuffle example_collaborators [3, 1, 2, 0, 4] = [4, 0, 2, 1, 3]"
    by (simp add: example_collaborators_def)
  have p: "mset (shuffle example_collaborators [3, 1, 2, 0, 4]) = mset [3, 1, 2, 0, 4]"
    by (simp add: example_collaborators_def)
  have c: "\<lceil>real (length [3, 1, 2, 0, 4 :: nat]) / real_of_int 2\<rceil> = 3" by simp
  from cell_chunks_partition [OF e ne f k p, of 25 None None]
  show ?thesis unfolding sh c example_run_five by auto
qed

text \<open>
  C4, as stated, fails: with \<open>n_samples_overall\<close> unset and \<open>n_samples = 150\<close> the inference
  loop is called with 100 samples per cell, because of \<open>np.minimum(n_samples_per_cell, 100)\<close>.
\<close>

theorem inference_loop_n_samples_counterexample:
  "\<not> (\<forall>chunk n. InferenceLoop chunk n \<in> set (fst (get_population_expression
          example_collaborators [0, 1, 2] 150 None False None 2 None)) \<longrightarrow> n = 150)"
proof
  assume "\<forall>chunk n. InferenceLoop chunk n \<in> set (fst (get_population_expression
          example_collaborators [0, 1, 2] 150 None False None 2 None)) \<longrightarrow> n = 150"
  then have "InferenceLoop [0] 100 \<in> set (fst (get_population_expression
          example_collaborators [0, 1, 2] 150 None False None 2 None)) \<longrightarrow> (100 :: int) = 150"
    by blast
  then show False unfolding example_run by simp
qed

lemma resample_events:
  "InferenceLoop chunk n \<in> set (fst (resample C chunks per_cell overall)) \<Longrightarrow> n = per_cell"
  by (auto simp: resample_def Let_def split: if_splits)

lemma sample_chunks_events:
  "InferenceLoop chunk n \<in> set (fst (sample_chunks C n_samples None chunks))
   \<Longrightarrow> n = min n_samples 100"
  by (auto simp: sample_chunks_def samples_per_cell_def split: if_splits dest: resample_events)

text \<open>
  C4 (amended). With \<open>n_samples_overall\<close> unset, every call of the per-chunk inference loop
  draws \<open>min(n_samples, 100)\<close> latent samples per cell: \<open>n_samples\<close> itself up to 100, and 100
  above.
\<close>

theorem inference_loop_n_samples_capped:
  assumes "InferenceLoop chunk n \<in> set (fst (get_population_expression C indices n_samples None
             do_filter transform_batch n_cells_per_chunk max_chunks))"
  shows "n = min n_samples 100"
proof -
  have cs: "n = min n_samples 100"
    if "InferenceLoop chunk n \<in> set (fst (chunk_and_sample C n_samples None n_cells_per_chunk
          max_chunks ys))" for ys
    using that
    by (auto simp: chunk_and_sample_def Let_def split: sum.splits dest: sample_chunks_events)
  have mf: "InferenceLoop chunk n \<notin> set ev" if "maybe_filter C do_filter ys = (ev, r)" for ys ev r
    using that by (auto simp: maybe_filter_def split: if_splits)
  show ?thesis
    using assms mf
    by (auto simp: get_population_expression_def Let_def
        split: sum.splits if_splits prod.splits dest: cs)
qed

theorem inference_loop_n_samples_capped_witness:
  "InferenceLoop [2, 1] 100 \<in> set (fst (get_population_expression
      example_collaborators [0, 1, 2] 150 None False None 2 None))
   \<and> (100 :: int) = min 150 100"
proof -
  have m: "InferenceLoop [2, 1] 100 \<in> set (fst (get_population_expression
      example_collaborators [0, 1, 2] 150 None False None 2 None))"
    unfolding example_run by simp
  from m inference_loop_n_samples_capped [OF m] show ?thesis by simp
qed

text \<open>
  C10. If the index set is empty after the optional batch restriction,
  \<open>get_population_expression\<close> returns the empty array of shape \<open>(0, n_vars)\<close>; no collaborator
  is called (no outlier filtering, shuffling, inference loop or resampling) and nothing is
  raised.
\<close>

theorem empty_population:
  assumes "effective_indices indices transform_batch = Inr []"
  shows "get_population_expression C indices n_samples n_samples_overall do_filter transform_batch
           n_cells_per_chunk max_chunks = ([], Inr (Array (0, n_vars C) []))"
  using assms by (simp add: get_population_expression_def)

theorem empty_population_witness:
  "effective_indices [4, 5 :: nat] (Some ([0, 0], 1)) = Inr []
   \<and> get_population_expression example_collaborators [4, 5] 25 None True (Some ([0, 0], 1)) 500 None
       = ([], Inr (Array (0, 2) []))"
proof -
  have e: "effective_indices [4, 5 :: nat] (Some ([0, 0], 1)) = Inr []"
    by (simp add: effective_indices_def)
  from e empty_population [OF e, of example_collaborators 25 None True 500 None]
  show ?thesis by (simp add: example_collaborators_def)
qed

section \<open>Properties of message passing\<close>

subsection \<open>Unfolding one call\<close>

lemma pass_unfold:
  assumes "search_node (tree M) (prior_root M) = Some pn"
    and "visit_incident M (incident_nodes (tree M) v) d ip pn
           (s(v := (s v)\<lparr>visited := True\<rparr>)) [] = (r, s1, inc)"
  shows "perform_message_passing M v d ip s =
           (case r of
              Some e \<Rightarrow> (Some e, s1)
            | None \<Rightarrow> (fst (update_node d (s1 v) (map s1 inc)),
                       s1(v := snd (update_node d (s1 v) (map s1 inc)))))"
  using assms by (simp add: perform_message_passing.simps split: option.splits prod.splits)

lemma pass_no_prior:
  "search_node (tree M) (prior_root M) = None \<Longrightarrow>
   perform_message_passing M v d ip s = (Some TreeError, s)"
  by (simp add: perform_message_passing.simps)

lemma visit_skip:
  "\<not> (\<not> visited (s w) \<and> (w \<noteq> pn \<or> w = pn \<and> ip)) \<Longrightarrow>
   visit_incident M (w # ws) d ip pn s inc = visit_incident M ws d ip pn s inc"
  by auto

lemma visit_call:
  assumes "\<not> visited (s w) \<and> (w \<noteq> pn \<or> w = pn \<and> ip)"
    and "perform_message_passing M w d ip s = (r, s1)"
  shows "visit_incident M (w # ws) d ip pn s inc =
           (case r of
              Some e \<Rightarrow> (Some e, s1, inc)
            | None \<Rightarrow> visit_incident M ws d ip pn s1 (inc @ [w]))"
  using assms by (auto split: option.splits)

subsection \<open>The fatal branch\<close>

lemma tensor_iadd_err: "tensor_iadd a b = Inl e \<Longrightarrow> e = RuntimeError"
  by (auto simp: tensor_iadd_def split: if_splits)

lemma tensor_sub_err: "tensor_sub a b = Inl e \<Longrightarrow> e = RuntimeError"
  by (auto simp: tensor_sub_def split: if_splits)

lemma accumulate_err:
  "fst (accumulate ks m) = Some e \<Longrightarrow> e = ZeroDivisionError \<or> e = RuntimeError"
  by (induction ks arbitrary: m) (auto split: if_splits sum.splits dest: tensor_iadd_err)

lemma outer_loop_err:
  "outer_loop inc cnu js st = Inl e \<Longrightarrow> e = RuntimeError \<or> e = UnboundLocalError"
proof (induction js arbitrary: st)
  case Nil
  then show ?case by (cases st) auto
next
  case (Cons j js)
  obtain Z p h where st: "st = (Z, p, h)" by (cases st)
  from Cons.prems show ?case
    unfolding st
    by (auto split: prod.splits option.splits sum.splits dest: tensor_sub_err Cons.IH)
qed

lemma combine_err:
  "fst (combine d m inc) = Some e \<Longrightarrow>
   e = ZeroDivisionError \<or> e = RuntimeError \<or> e = UnboundLocalError"
  using accumulate_err [of inc m e]
  by (auto simp: combine_def Let_def split: prod.splits option.splits sum.splits if_splits
      dest: outer_loop_err)

lemma update_node_not_fatal: "fst (update_node d m inc) \<noteq> Some NotImplementedError"
proof -
  have "length inc = 0 \<or> length inc = 1 \<or> 2 \<le> length inc" by arith
  then show ?thesis
    by (auto simp: update_node_def Let_def dest: combine_err)
qed

lemma pass_not_fatal:
  "fst (perform_message_passing M v d ip s) \<noteq> Some NotImplementedError"
  "fst (visit_incident M ws d ip pn s inc) \<noteq> Some NotImplementedError"
proof (induct M v d ip s and M ws d ip pn s inc rule: perform_message_passing_visit_incident.induct)
  case (1 M root_node d include_prior s)
  show ?case
  proof (cases "search_node (tree M) (prior_root M)")
    case None
    then show ?thesis by (simp add: pass_no_prior)
  next
    case (Some pn)
    obtain r s1 inc where v: "visit_incident M (incident_nodes (tree M) root_node) d include_prior pn
        (s(root_node := (s root_node)\<lparr>visited := True\<rparr>)) [] = (r, s1, inc)"
      by (rule prod_cases3)
    from "1" [OF Some] have "r \<noteq> Some NotImplementedError" unfolding v by simp
    then show ?thesis
      unfolding pass_unfold [OF Some v]
      by (cases r) (simp_all add: update_node_not_fatal)
  qed
next
  case (2 M d include_prior prior_node s incoming)
  show ?case by simp
next
  case (3 M node nodes d include_prior prior_node s incoming)
  show ?case
  proof (cases "\<not> visited (s node) \<and> (node \<noteq> prior_node \<or> node = prior_node \<and> include_prior)")
    case True
    obtain r s1 where c: "perform_message_passing M node d include_prior s = (r, s1)"
      by (rule prod.exhaust)
    from "3"(1) [OF True] have r: "r \<noteq> Some NotImplementedError" unfolding c by simp
    show ?thesis
    proof (cases r)
      case None
      from "3"(2) [OF True c [symmetric] None] show ?thesis
        unfolding visit_call [OF True c] None by simp
    next
      case (Some e)
      with r show ?thesis unfolding visit_call [OF True c] by simp
    qed
  next
    case False
    from "3"(3) [OF False] show ?thesis unfolding visit_skip [of s node prior_node include_prior, OF False] .
  qed
qed

text \<open>
  C9. The \<open>else\<close> branch that raises NotImplementedError is taken exactly when the number of
  incoming messages is none of \<open>0\<close>, \<open>1\<close>, \<open>>= 2\<close>; that number is the length of a list, so the
  branch is unreachable and \<open>perform_message_passing\<close> never raises it, for any tree,
  starting node and annotations.
\<close>

theorem fatal_branch_unreachable:
  "(fst (update_node d m inc) = Some NotImplementedError
      \<longleftrightarrow> \<not> (length inc = 0 \<or> length inc = 1 \<or> 2 \<le> length inc))
   \<and> fst (perform_message_passing M v d ip s) \<noteq> Some NotImplementedError"
proof -
  have "length inc = 0 \<or> length inc = 1 \<or> 2 \<le> length inc" by arith
  then show ?thesis
    using update_node_not_fatal [of d m inc] pass_not_fatal(1) [of M v d ip s] by blast
qed

theorem fatal_branch_unreachable_witness:
  "fst (update_node 1 blank [blank, blank, blank]) \<noteq> Some NotImplementedError
   \<and> fst (perform_message_passing example_model [0, 0] 1 True (\<lambda>p. blank))
         \<noteq> Some NotImplementedError"
  using fatal_branch_unreachable [of 1 blank "[blank, blank, blank]" example_model "[0, 0]" True
      "\<lambda>p. blank"]
  by simp

subsection \<open>Small trees\<close>

lemma example_search:
  "search_node (tree example_model) ''prior_root'' = Some []"
  "search_node (tree example_model) ''r'' = Some [0]"
  "search_node (tree example_model) ''a'' = Some [0, 0]"
  "search_node (tree example_model) ''b'' = Some [0, Suc 0]"
  by code_simp+

lemma example_incident:
  "incident_nodes (tree example_model) [] = [[0]]"
  "incident_nodes (tree example_model) [0] = [[0, 0], [0, Suc 0], []]"
  "incident_nodes (tree example_model) [0, 0] = [[0]]"
  "incident_nodes (tree example_model) [0, Suc 0] = [[0]]"
  by code_simp+

lemma example_fields:
  "prior_root example_model = ''prior_root''" "root example_model = ''r''"
  "barcodes example_model = [''a'', ''b'']" "n_latent example_model = 1"
  by (simp_all add: example_model_def TreeVAE_def)

lemma example_is_node:
  "is_node (tree example_model) []" "is_node (tree example_model) [0]"
  "is_node (tree example_model) [0, 0]" "is_node (tree example_model) [0, Suc 0]"
  by code_simp+

lemmas example_simps =
  example_search example_fields example_incident example_is_node
  perform_message_passing.simps update_node_def combine_def tensor_iadd_def tensor_sub_def
  find_t_def product_without_def inner_loop_def sum_sq_def Let_def enumerate_eq_zip

subsection \<open>Dependence on the annotations of the tree only\<close>

lemma level_is_node: "p \<in> set (level t k) \<Longrightarrow> is_node t p"
proof (induction k arbitrary: t p)
  case 0
  then show ?case by (simp add: is_node_def)
next
  case (Suc k)
  obtain n ts where t: "t = Node n ts" by (cases t)
  from Suc.prems obtain i q where i: "i < length ts" "q \<in> set (level (ts ! i) k)" "p = i # q"
    unfolding t by auto
  from Suc.IH [OF i(2)] i(1,3) show ?case
    unfolding t by (simp add: is_node_def)
qed

lemma search_is_node: "search_node T nm = Some q \<Longrightarrow> is_node T q"
proof -
  assume "search_node T nm = Some q"
  then have "q \<in> set (traverse T)"
    by (auto simp: search_node_def find_Some_iff)
  then show "is_node T q"
    by (auto simp: traverse_def dest: level_is_node)
qed

text \<open>A pass started at a node of the tree reads and writes the annotations of nodes of
  the tree only.\<close>

lemma pass_agree_aux:
  "\<forall>s'. is_node (tree M) v \<and> (\<forall>p. is_node (tree M) p \<longrightarrow> s p = s' p) \<longrightarrow>
      fst (perform_message_passing M v d ip s) = fst (perform_message_passing M v d ip s')
    \<and> (\<forall>p. is_node (tree M) p \<longrightarrow>
          snd (perform_message_passing M v d ip s) p = snd (perform_message_passing M v d ip s') p)"
  "\<forall>s'. (\<forall>w\<in>set ws. is_node (tree M) w) \<and> (\<forall>w\<in>set inc. is_node (tree M) w)
        \<and> (\<forall>p. is_node (tree M) p \<longrightarrow> s p = s' p) \<longrightarrow>
      fst (visit_incident M ws d ip pn s inc) = fst (visit_incident M ws d ip pn s' inc)
    \<and> (\<forall>p. is_node (tree M) p \<longrightarrow>
          fst (snd (visit_incident M ws d ip pn s inc)) p
            = fst (snd (visit_incident M ws d ip pn s' inc)) p)
    \<and> snd (snd (visit_incident M ws d ip pn s inc)) = snd (snd (visit_incident M ws d ip pn s' inc))
    \<and> (\<forall>w\<in>set (snd (snd (visit_incident M ws d ip pn s inc))). is_node (tree M) w)"
proof (induct M v d ip s and M ws d ip pn s inc
    rule: perform_message_passing_visit_incident.induct)
  case (1 M root_node d include_prior s)
  show ?case
  proof (intro allI impI, elim conjE)
    fix s'
    assume v: "is_node (tree M) root_node" and ag: "\<forall>p. is_node (tree M) p \<longrightarrow> s p = s' p"
    let ?goal = "fst (perform_message_passing M root_node d include_prior s)
                   = fst (perform_message_passing M root_node d include_prior s')
                 \<and> (\<forall>p. is_node (tree M) p \<longrightarrow>
                       snd (perform_message_passing M root_node d include_prior s) p
                         = snd (perform_message_passing M root_node d include_prior s') p)"
    show ?goal
    proof (cases "search_node (tree M) (prior_root M)")
      case None
      then show ?thesis using ag by (simp add: pass_no_prior)
    next
      case (Some pn)
      let ?s0 = "s(root_node := (s root_node)\<lparr>visited := True\<rparr>)"
      let ?s0' = "s'(root_node := (s' root_node)\<lparr>visited := True\<rparr>)"
      obtain r s1 inc where a: "visit_incident M (incident_nodes (tree M) root_node) d
          include_prior pn ?s0 [] = (r, s1, inc)"
        by (rule prod_cases3)
      obtain r' s1' inc' where b: "visit_incident M (incident_nodes (tree M) root_node) d
          include_prior pn ?s0' [] = (r', s1', inc')"
        by (rule prod_cases3)
      have ag0: "\<forall>p. is_node (tree M) p \<longrightarrow> ?s0 p = ?s0' p"
        using ag v by simp
      have "\<forall>w\<in>set (incident_nodes (tree M) root_node). is_node (tree M) w"
        by (auto dest: incident_is_node)
      then have pre: "(\<forall>w\<in>set (incident_nodes (tree M) root_node). is_node (tree M) w)
          \<and> (\<forall>w\<in>set []. is_node (tree M) w)
          \<and> (\<forall>p. is_node (tree M) p \<longrightarrow> ?s0 p = ?s0' p)"
        using ag0 by simp
      have "fst (r, s1, inc) = fst (r', s1', inc')
          \<and> (\<forall>p. is_node (tree M) p \<longrightarrow> fst (snd (r, s1, inc)) p = fst (snd (r', s1', inc')) p)
          \<and> snd (snd (r, s1, inc)) = snd (snd (r', s1', inc'))
          \<and> (\<forall>w\<in>set (snd (snd (r, s1, inc))). is_node (tree M) w)"
        unfolding a [symmetric] b [symmetric]
        by (rule "1.hyps" [OF Some, THEN spec, of ?s0', THEN mp, OF pre])
      then have eq: "r' = r" "inc' = inc" and ag1: "\<forall>p. is_node (tree M) p \<longrightarrow> s1 p = s1' p"
        and incn: "\<forall>w\<in>set inc. is_node (tree M) w"
        by simp_all
      have "map s1 inc = map s1' inc" using ag1 incn by simp
      moreover have "s1 root_node = s1' root_node" using ag1 v by simp
      ultimately have upd: "update_node d (s1 root_node) (map s1 inc)
                              = update_node d (s1' root_node) (map s1' inc)"
        by (simp only:)
      show ?thesis
        unfolding pass_unfold [OF Some a] pass_unfold [OF Some b] eq upd
        using ag1 by (cases r) simp_all
    qed
  qed
next
  case (2 M d include_prior prior_node s incoming)
  show ?case by simp
next
  case (3 M node nodes d include_prior prior_node s incoming)
  show ?case
  proof (intro allI impI, elim conjE)
    fix s'
    assume ws: "\<forall>w\<in>set (node # nodes). is_node (tree M) w"
      and inc: "\<forall>w\<in>set incoming. is_node (tree M) w"
      and ag: "\<forall>p. is_node (tree M) p \<longrightarrow> s p = s' p"
    let ?A = "visit_incident M (node # nodes) d include_prior prior_node s incoming"
    let ?B = "visit_incident M (node # nodes) d include_prior prior_node s' incoming"
    have same: "s node = s' node" using ws ag by simp
    show "fst ?A = fst ?B
        \<and> (\<forall>p. is_node (tree M) p \<longrightarrow> fst (snd ?A) p = fst (snd ?B) p)
        \<and> snd (snd ?A) = snd (snd ?B)
        \<and> (\<forall>w\<in>set (snd (snd ?A)). is_node (tree M) w)"
    proof (cases "\<not> visited (s node) \<and> (node \<noteq> prior_node \<or> node = prior_node \<and> include_prior)")
      case True
      then have True': "\<not> visited (s' node) \<and> (node \<noteq> prior_node \<or> node = prior_node \<and> include_prior)"
        using same by simp
      obtain r s1 where c: "perform_message_passing M node d include_prior s = (r, s1)"
        by (rule prod.exhaust)
      obtain r' s1' where c': "perform_message_passing M node d include_prior s' = (r', s1')"
        by (rule prod.exhaust)
      have pre1: "is_node (tree M) node \<and> (\<forall>p. is_node (tree M) p \<longrightarrow> s p = s' p)"
        using ws ag by simp
      have "fst (r, s1) = fst (r', s1') \<and> (\<forall>p. is_node (tree M) p \<longrightarrow> snd (r, s1) p = snd (r', s1') p)"
        unfolding c [symmetric] c' [symmetric]
        by (rule "3.hyps"(1) [OF True, THEN spec, of s', THEN mp, OF pre1])
      then have eq: "r' = r" and ag1: "\<forall>p. is_node (tree M) p \<longrightarrow> s1 p = s1' p"
        by simp_all
      show ?thesis
      proof (cases r)
        case None
        have pre: "(\<forall>w\<in>set nodes. is_node (tree M) w)
            \<and> (\<forall>w\<in>set (incoming @ [node]). is_node (tree M) w)
            \<and> (\<forall>p. is_node (tree M) p \<longrightarrow> s1 p = s1' p)"
          using ws inc ag1 by simp
        note ih = "3.hyps"(2) [OF True c [symmetric] None, THEN spec, of s1', THEN mp, OF pre]
        show ?thesis
          unfolding visit_call [of s node prior_node include_prior, OF True c]
            visit_call [of s' node prior_node include_prior, OF True' c'] eq None
          using ih by simp
      next
        case (Some e)
        then show ?thesis
          unfolding visit_call [of s node prior_node include_prior, OF True c]
            visit_call [of s' node prior_node include_prior, OF True' c'] eq
          using ag1 inc by simp
      qed
    next
      case False
      then have False': "\<not> (\<not> visited (s' node) \<and> (node \<noteq> prior_node \<or> node = prior_node \<and> include_prior))"
        using same by simp
      have pre: "(\<forall>w\<in>set nodes. is_node (tree M) w)
          \<and> (\<forall>w\<in>set incoming. is_node (tree M) w)
          \<and> (\<forall>p. is_node (tree M) p \<longrightarrow> s p = s' p)"
        using ws inc ag by simp
      note ih = "3.hyps"(3) [OF False, THEN spec, of s', THEN mp, OF pre]
      show ?thesis
        unfolding visit_skip [of s node prior_node include_prior, OF False]
          visit_skip [of s' node prior_node include_prior, OF False']
        using ih by simp
    qed
  qed
qed

lemma initialize_agree:
  assumes "initialize_messages M ev bcs d (initialize_visit M s) = Inr s0"
    and "initialize_messages M ev bcs d (initialize_visit M s') = Inr s0'"
    and "is_node (tree M) p"
  shows "s0 p = s0' p"
proof -
  have "(m\<lparr>visited := False\<rparr>)\<lparr>nu := a, mu := b, log_z := c\<rparr>
          = (m'\<lparr>visited := False\<rparr>)\<lparr>nu := a, mu := b, log_z := c\<rparr>" for m m' :: message and a b c
    by (cases m, cases m') simp
  then show ?thesis
    using assms
    by (auto simp: initialize_messages_def initialize_visit_def Let_def split: if_splits)
qed

lemma initialize_error:
  "initialize_messages M ev bcs d s = Inl e \<Longrightarrow> initialize_messages M ev bcs d s' = Inl e"
  by (auto simp: initialize_messages_def Let_def split: if_splits)

lemma query_pass_agree:
  assumes r: "is_node (tree M) r" and ag: "\<forall>p. is_node (tree M) p \<longrightarrow> s p = s' p"
  shows "fst (query_pass M query r s) = fst (query_pass M query r s')"
proof (cases "search_node (tree M) query")
  case None
  then show ?thesis by (simp add: query_pass_def)
next
  case (Some q)
  then have q: "is_node (tree M) q" by (rule search_is_node)
  let ?d = "length (mu (s r))"
  have d: "length (mu (s' r)) = ?d" using r ag by simp
  obtain e s1 where a: "perform_message_passing M q ?d True s = (e, s1)" by (rule prod.exhaust)
  obtain e' s1' where b: "perform_message_passing M q ?d True s' = (e', s1')" by (rule prod.exhaust)
  have pre: "is_node (tree M) q \<and> (\<forall>p. is_node (tree M) p \<longrightarrow> s p = s' p)"
    using q ag by simp
  have "fst (e, s1) = fst (e', s1') \<and> (\<forall>p. is_node (tree M) p \<longrightarrow> snd (e, s1) p = snd (e', s1') p)"
    unfolding a [symmetric] b [symmetric]
    by (rule pass_agree_aux(1) [THEN spec, of _ _ _ s', THEN mp, OF pre])
  then have "e' = e" "s1 q = s1' q" using q by simp_all
  then show ?thesis
    unfolding query_pass_def Some d using a b by (cases e) simp_all
qed

subsection \<open>Passes that return\<close>

text \<open>Messages as \<open>initialize_messages\<close> and the updates leave them: a non-negative \<open>nu\<close> and
  a \<open>mu\<close> of the common length. On such messages no division by zero and no shape error
  can occur.\<close>

definition well_formed :: "nat \<Rightarrow> message \<Rightarrow> bool" where
  "well_formed len m = (0 \<le> nu m \<and> length (mu m) = len)"

lemma accumulate_ok:
  assumes "\<forall>k\<in>set ks. well_formed len k" and "length (mu m) = len"
  shows "fst (accumulate ks m) = None \<and> length (mu (snd (accumulate ks m))) = len"
  using assms
proof (induction ks arbitrary: m)
  case Nil
  then show ?case by simp
next
  case (Cons k ks)
  from Cons.prems have k: "0 \<le> nu k" "length (mu k) = len"
    by (simp_all add: well_formed_def)
  let ?m1 = "m\<lparr>nu := nu m + 1 / (nu k + 1), mu := map2 (+) (mu m) (map (\<lambda>x. x / (nu k + 1)) (mu k))\<rparr>"
  have step: "accumulate (k # ks) m = accumulate ks ?m1"
    using k Cons.prems(2) by (simp add: tensor_iadd_def)
  have "length (mu ?m1) = len" using k Cons.prems(2) by simp
  with Cons.IH [of ?m1] Cons.prems(1) show ?case
    unfolding step by simp
qed

lemma accumulate_nu_mono:
  assumes "\<forall>k\<in>set ks. well_formed len k" and "length (mu m) = len"
  shows "nu m \<le> nu (snd (accumulate ks m))"
  using assms
proof (induction ks arbitrary: m)
  case Nil
  then show ?case by simp
next
  case (Cons k ks)
  from Cons.prems have k: "0 \<le> nu k" "length (mu k) = len"
    by (simp_all add: well_formed_def)
  let ?m1 = "m\<lparr>nu := nu m + 1 / (nu k + 1), mu := map2 (+) (mu m) (map (\<lambda>x. x / (nu k + 1)) (mu k))\<rparr>"
  have step: "accumulate (k # ks) m = accumulate ks ?m1"
    using k Cons.prems(2) by (simp add: tensor_iadd_def)
  have "length (mu ?m1) = len" using k Cons.prems(2) by simp
  with Cons.IH [of ?m1] Cons.prems(1) have "nu ?m1 \<le> nu (snd (accumulate ks ?m1))" by simp
  moreover have "nu m \<le> nu ?m1" using k by simp
  ultimately show ?case unfolding step by linarith
qed

lemma accumulate_nu_pos:
  assumes "\<forall>k\<in>set ks. well_formed len k" and "well_formed len m" and "ks \<noteq> []"
  shows "0 < nu (snd (accumulate ks m))"
proof -
  from assms(3) obtain k ks' where ks: "ks = k # ks'" by (cases ks) auto
  from assms(1) ks have k: "0 \<le> nu k" "length (mu k) = len"
    by (simp_all add: well_formed_def)
  from assms(2) have m: "0 \<le> nu m" "length (mu m) = len"
    by (simp_all add: well_formed_def)
  let ?m1 = "m\<lparr>nu := nu m + 1 / (nu k + 1), mu := map2 (+) (mu m) (map (\<lambda>x. x / (nu k + 1)) (mu k))\<rparr>"
  have step: "accumulate ks m = accumulate ks' ?m1"
    unfolding ks using k m by (simp add: tensor_iadd_def)
  have "length (mu ?m1) = len" using k m by simp
  with accumulate_nu_mono [of ks' len ?m1] assms(1) ks
  have "nu ?m1 \<le> nu (snd (accumulate ks' ?m1))" by simp
  moreover have "0 < nu ?m1" using k m by (simp add: add_nonneg_pos)
  ultimately show ?thesis unfolding step by linarith
qed

lemma fold_product_pos:
  "\<forall>x\<in>set L. 0 < x \<Longrightarrow> 0 < acc \<Longrightarrow>
   0 < fold (\<lambda>(idx, x) prod. if idx \<in> set exclude then prod else prod * x)
         (enumerate n L) (acc :: real)"
  by (induction L arbitrary: n acc) simp_all

lemma product_without_pos: "\<forall>x\<in>set L. 0 < x \<Longrightarrow> 0 < product_without L exclude"
  unfolding product_without_def by (rule fold_product_pos) simp_all

lemma fold_sum_pos:
  "\<forall>i. 0 < g i \<Longrightarrow> 0 \<le> acc \<Longrightarrow> xs \<noteq> [] \<Longrightarrow> 0 < fold (\<lambda>i t. t + g i) xs (acc :: real)"
proof (induction xs arbitrary: acc)
  case Nil
  then show ?case by simp
next
  case (Cons x xs)
  have pos: "0 < acc + g x" using Cons.prems(1,2) by (simp add: add_nonneg_pos)
  show ?case
  proof (cases "xs = []")
    case True
    with pos show ?thesis by simp
  next
    case False
    with Cons.IH [of "acc + g x"] Cons.prems(1) pos show ?thesis by simp
  qed
qed

lemma find_t_pos: "\<forall>x\<in>set L. 0 < x \<Longrightarrow> L \<noteq> [] \<Longrightarrow> 0 < find_t L"
  unfolding find_t_def
  by (rule fold_sum_pos) (simp_all add: product_without_pos)

lemma inner_loop_result:
  assumes "2 \<le> length cnu"
  shows "\<exists>p. inner_loop cnu j st = (Some p, Some (length cnu - 1))"
proof -
  let ?f = "\<lambda>h (prod_2 :: real option, h_old :: nat option).
              if h = j then (prod_2, Some h)
              else (Some (product_without cnu [j, h]), Some h)"
  let ?n = "length cnu"
  from assms obtain m where n: "?n = Suc (Suc m)"
    by (metis Suc_le_D numeral_2_eq_2 Suc_le_mono Suc_leD le_Suc_ex add_Suc_right add_Suc)
  have up: "[0..<?n] = [0..<m] @ [m, Suc m]" unfolding n by simp
  obtain a b where ab: "fold ?f [0..<m] st = (a, b)" by (rule prod.exhaust)
  have "inner_loop cnu j st = ?f (Suc m) (?f m (a, b))"
    unfolding inner_loop_def up by (simp add: ab)
  moreover have "\<exists>p. ?f (Suc m) (?f m (a, b)) = (Some p, Some (Suc m))"
    by (cases "Suc m = j") auto
  ultimately show ?thesis unfolding n by simp
qed

lemma outer_loop_ok:
  assumes "2 \<le> length inc" and "length cnu = length inc"
    and "\<forall>k\<in>set inc. well_formed len k" and "\<forall>j\<in>set js. j < length inc"
  shows "\<exists>Z. outer_loop inc cnu js st = Inr Z"
  using assms(4)
proof (induction js arbitrary: st)
  case Nil
  then show ?case by (cases st) auto
next
  case (Cons j js)
  obtain Z p h where st: "st = (Z, p, h)" by (rule prod_cases3)
  from assms(1,2) have "2 \<le> length cnu" by simp
  from inner_loop_result [OF this, of j "(p, h)"] obtain p' where
    il: "inner_loop cnu j (p, h) = (Some p', Some (length inc - Suc 0))"
    using assms(2) by auto
  have "length inc - Suc 0 < length inc" "j < length inc" using assms(1) Cons.prems by simp_all
  then have "length (mu (inc ! (length inc - Suc 0))) = length (mu (inc ! j))"
    using assms(3) by (simp add: well_formed_def)
  then have ts: "tensor_sub (mu (inc ! (length inc - Suc 0))) (mu (inc ! j))
                   = Inr (map2 (-) (mu (inc ! (length inc - Suc 0))) (mu (inc ! j)))"
    by (simp add: tensor_sub_def)
  from Cons.IH Cons.prems show ?case
    unfolding st by (simp add: il ts)
qed

lemma combine_ok:
  assumes "2 \<le> length inc" and "\<forall>k\<in>set inc. well_formed len k" and "well_formed len m"
  shows "fst (combine d m inc) = None \<and> well_formed len (snd (combine d m inc))"
proof -
  from assms(3) have m: "length (mu m) = len" by (simp add: well_formed_def)
  from assms(1) have ne: "inc \<noteq> []" by auto
  obtain e m1 where acc: "accumulate inc m = (e, m1)" by (rule prod.exhaust)
  from accumulate_ok [OF assms(2) m] acc have e: "e = None" and len: "length (mu m1) = len"
    by simp_all
  from accumulate_nu_pos [OF assms(2,3) ne] acc have pos: "0 < nu m1" by simp
  let ?cnu = "map (\<lambda>k. nu k + 1) inc"
  have "\<forall>x\<in>set ?cnu. 0 < x" using assms(2) by (auto simp: well_formed_def)
  then have "0 < find_t ?cnu" using ne by (intro find_t_pos) simp_all
  then have t: "find_t ?cnu \<noteq> 0" by simp
  have "\<forall>j\<in>set [0..<length inc]. j < length inc" by simp
  from outer_loop_ok [OF assms(1) _ assms(2) this, of ?cnu "(0, None, None)"]
  obtain Z where Z: "outer_loop inc ?cnu [0..<length inc] (0, None, None) = Inr Z" by auto
  show ?thesis
    using pos len t by (simp add: combine_def acc e Z Let_def well_formed_def)
qed

lemma update_node_ok:
  assumes "\<forall>k\<in>set inc. well_formed len k" and "well_formed len m"
  shows "fst (update_node d m inc) = None \<and> well_formed len (snd (update_node d m inc))"
proof -
  consider "length inc = 0" | "length inc = 1" | "2 \<le> length inc" by linarith
  then show ?thesis
  proof cases
    case 1
    then show ?thesis using assms(2) by (simp add: update_node_def)
  next
    case 2
    then have "inc ! 0 \<in> set inc" by (cases inc) auto
    with assms(1) have "well_formed len (inc ! 0)" by blast
    then show ?thesis using 2 by (simp add: update_node_def well_formed_def)
  next
    case 3
    then have "update_node d m inc = combine d m inc" by (auto simp: update_node_def Let_def)
    with combine_ok [OF 3 assms] show ?thesis by simp
  qed
qed

lemma pass_ok_aux:
  "is_node (tree M) v \<and> search_node (tree M) (prior_root M) \<noteq> None
     \<and> (\<forall>p. is_node (tree M) p \<longrightarrow> well_formed len (s p)) \<longrightarrow>
   fst (perform_message_passing M v d ip s) = None
     \<and> (\<forall>p. is_node (tree M) p \<longrightarrow> well_formed len (snd (perform_message_passing M v d ip s) p))"
  "(\<forall>w\<in>set ws. is_node (tree M) w) \<and> (\<forall>w\<in>set inc. is_node (tree M) w)
     \<and> search_node (tree M) (prior_root M) \<noteq> None
     \<and> (\<forall>p. is_node (tree M) p \<longrightarrow> well_formed len (s p)) \<longrightarrow>
   fst (visit_incident M ws d ip pn s inc) = None
     \<and> (\<forall>p. is_node (tree M) p \<longrightarrow> well_formed len (fst (snd (visit_incident M ws d ip pn s inc)) p))
     \<and> (\<forall>w\<in>set (snd (snd (visit_incident M ws d ip pn s inc))). is_node (tree M) w)"
proof (induct M v d ip s and M ws d ip pn s inc
    rule: perform_message_passing_visit_incident.induct)
  case (1 M root_node d include_prior s)
  show ?case
  proof (intro impI, elim conjE)
    assume v: "is_node (tree M) root_node"
      and pr: "search_node (tree M) (prior_root M) \<noteq> None"
      and wf: "\<forall>p. is_node (tree M) p \<longrightarrow> well_formed len (s p)"
    from pr obtain pn where Some: "search_node (tree M) (prior_root M) = Some pn" by auto
    let ?s0 = "s(root_node := (s root_node)\<lparr>visited := True\<rparr>)"
    obtain r s1 inc where a: "visit_incident M (incident_nodes (tree M) root_node) d
        include_prior pn ?s0 [] = (r, s1, inc)"
      by (rule prod_cases3)
    have pre: "(\<forall>w\<in>set (incident_nodes (tree M) root_node). is_node (tree M) w)
        \<and> (\<forall>w\<in>set []. is_node (tree M) w)
        \<and> search_node (tree M) (prior_root M) \<noteq> None
        \<and> (\<forall>p. is_node (tree M) p \<longrightarrow> well_formed len (?s0 p))"
      using wf pr by (auto dest: incident_is_node simp: well_formed_def)
    have "fst (r, s1, inc) = None
        \<and> (\<forall>p. is_node (tree M) p \<longrightarrow> well_formed len (fst (snd (r, s1, inc)) p))
        \<and> (\<forall>w\<in>set (snd (snd (r, s1, inc))). is_node (tree M) w)"
      unfolding a [symmetric] by (rule "1.hyps" [OF Some, THEN mp, OF pre])
    then have r: "r = None" and wf1: "\<forall>p. is_node (tree M) p \<longrightarrow> well_formed len (s1 p)"
      and incn: "\<forall>w\<in>set inc. is_node (tree M) w"
      by simp_all
    have "\<forall>k\<in>set (map s1 inc). well_formed len k" using wf1 incn by simp
    moreover have "well_formed len (s1 root_node)" using wf1 v by simp
    ultimately have "fst (update_node d (s1 root_node) (map s1 inc)) = None
        \<and> well_formed len (snd (update_node d (s1 root_node) (map s1 inc)))"
      by (rule update_node_ok)
    then show "fst (perform_message_passing M root_node d include_prior s) = None
        \<and> (\<forall>p. is_node (tree M) p \<longrightarrow>
              well_formed len (snd (perform_message_passing M root_node d include_prior s) p))"
      unfolding pass_unfold [OF Some a] r using wf1 by simp
  qed
next
  case (2 M d include_prior prior_node s incoming)
  show ?case by simp
next
  case (3 M node nodes d include_prior prior_node s incoming)
  show ?case
  proof (intro impI, elim conjE)
    assume ws: "\<forall>w\<in>set (node # nodes). is_node (tree M) w"
      and inc: "\<forall>w\<in>set incoming. is_node (tree M) w"
      and pr: "search_node (tree M) (prior_root M) \<noteq> None"
      and wf: "\<forall>p. is_node (tree M) p \<longrightarrow> well_formed len (s p)"
    let ?A = "visit_incident M (node # nodes) d include_prior prior_node s incoming"
    show "fst ?A = None
        \<and> (\<forall>p. is_node (tree M) p \<longrightarrow> well_formed len (fst (snd ?A) p))
        \<and> (\<forall>w\<in>set (snd (snd ?A)). is_node (tree M) w)"
    proof (cases "\<not> visited (s node) \<and> (node \<noteq> prior_node \<or> node = prior_node \<and> include_prior)")
      case True
      obtain r s1 where c: "perform_message_passing M node d include_prior s = (r, s1)"
        by (rule prod.exhaust)
      have pre1: "is_node (tree M) node \<and> search_node (tree M) (prior_root M) \<noteq> None
          \<and> (\<forall>p. is_node (tree M) p \<longrightarrow> well_formed len (s p))"
        using ws pr wf by simp
      have "fst (r, s1) = None \<and> (\<forall>p. is_node (tree M) p \<longrightarrow> well_formed len (snd (r, s1) p))"
        unfolding c [symmetric] by (rule "3.hyps"(1) [OF True, THEN mp, OF pre1])
      then have r: "r = None" and wf1: "\<forall>p. is_node (tree M) p \<longrightarrow> well_formed len (s1 p)"
        by simp_all
      have pre: "(\<forall>w\<in>set nodes. is_node (tree M) w)
          \<and> (\<forall>w\<in>set (incoming @ [node]). is_node (tree M) w)
          \<and> search_node (tree M) (prior_root M) \<noteq> None
          \<and> (\<forall>p. is_node (tree M) p \<longrightarrow> well_formed len (s1 p))"
        using ws inc pr wf1 by simp
      note ih = "3.hyps"(2) [OF True c [symmetric] r, THEN mp, OF pre]
      show ?thesis
        unfolding visit_call [of s node prior_node include_prior, OF True c] r
        using ih by simp
    next
      case False
      have pre: "(\<forall>w\<in>set nodes. is_node (tree M) w)
          \<and> (\<forall>w\<in>set incoming. is_node (tree M) w)
          \<and> search_node (tree M) (prior_root M) \<noteq> None
          \<and> (\<forall>p. is_node (tree M) p \<longrightarrow> well_formed len (s p))"
        using ws inc pr wf by simp
      note ih = "3.hyps"(3) [OF False, THEN mp, OF pre]
      show ?thesis
        unfolding visit_skip [of s node prior_node include_prior, OF False]
        using ih by simp
    qed
  qed
qed

lemma pass_returns:
  assumes "is_node (tree M) v" and "search_node (tree M) (prior_root M) = Some pn"
    and "\<forall>p. is_node (tree M) p \<longrightarrow> well_formed len (s p)"
  shows "fst (perform_message_passing M v d ip s) = None"
  using pass_ok_aux(1) [of M v len s d ip] assms by simp

lemma fold_dict_values:
  "fold (\<lambda>(b, j) dic. dic(b \<mapsto> j)) xs m nm = Some j \<Longrightarrow> j \<in> snd ` set xs \<or> m nm = Some j"
proof (induction xs arbitrary: m)
  case Nil
  then show ?case by simp
next
  case (Cons x xs)
  obtain b j' where x: "x = (b, j')" by (cases x)
  from Cons.prems have "fold (\<lambda>(b, j) dic. dic(b \<mapsto> j)) xs (m(b \<mapsto> j')) nm = Some j"
    unfolding x by (simp only: fold.simps comp_apply prod.case)
  from Cons.IH [OF this] show ?case
    unfolding x by (auto split: if_splits)
qed

lemma initialize_well_formed:
  assumes "initialize_messages M ev bcs d s = Inr s0" and "\<forall>row\<in>set ev. length row = d"
    and "is_node (tree M) p"
  shows "well_formed d (s0 p)"
proof -
  let ?dic = "(fold (\<lambda>(b, j) dic. dic(b \<mapsto> j)) (zip bcs ev) Map.empty)(prior_root M \<mapsto> replicate d 0)"
  have "length j = d" if "?dic nm = Some j" for nm j
  proof (cases "nm = prior_root M")
    case True
    with that show ?thesis by auto
  next
    case False
    with that have "fold (\<lambda>(b, j) dic. dic(b \<mapsto> j)) (zip bcs ev) Map.empty nm = Some j" by simp
    from fold_dict_values [OF this] have "j \<in> set ev" by (auto dest: set_zip_rightD)
    with assms(2) show ?thesis by blast
  qed
  then have "length (case ?dic nm of Some j \<Rightarrow> j | None \<Rightarrow> replicate d 0) = d" for nm
    by (cases "?dic nm") simp_all
  then show ?thesis
    using assms(1,3)
    by (auto simp: initialize_messages_def Let_def well_formed_def split: if_splits)
qed

subsection \<open>The posterior query\<close>

text \<open>
  C3, as stated, fails: without evidence (the default) \<open>posterior_predictive_density\<close> resets
  only the visited flags, so the returned belief depends on the messages that are on the tree.
\<close>

theorem posterior_old_messages_counterexample:
  "fst (posterior_predictive_density example_model ''a'' None (\<lambda>p. blank))
     \<noteq> fst (posterior_predictive_density example_model ''a'' None
             ((\<lambda>p. blank)([0, 1] := blank\<lparr>mu := [2]\<rparr>)))"
proof -
  have "fst (posterior_predictive_density example_model ''a'' None (\<lambda>p. blank)) = Inr ([0], 3 / 2)"
    by (simp add: posterior_predictive_density_def query_messages_def query_pass_def
        initialize_visit_def example_simps blank_def)
  moreover have "fst (posterior_predictive_density example_model ''a'' None
             ((\<lambda>p. blank)([0, 1] := blank\<lparr>mu := [2]\<rparr>))) = Inr ([1], 3 / 2)"
    by (simp add: posterior_predictive_density_def query_messages_def query_pass_def
        initialize_visit_def example_simps blank_def)
  ultimately show ?thesis by simp
qed

text \<open>
  C3 (amended). When evidence is supplied, \<open>posterior_predictive_density\<close> resets the visited
  flags and re-initialises every message, so its result is the same from every earlier state
  of the annotations; for evidence with at most one row per barcode, each of the latent
  dimension, and names that exist in the tree, the pass rooted at the query node with the prior
  included returns and the result is that node's \<open>(mu, nu)\<close>. Without evidence only the
  visited flags are reset and the pass runs on the messages as they are.
\<close>

theorem posterior_from_evidence:
  "(\<forall>s'. fst (posterior_predictive_density M query (Some ev) s')
            = fst (posterior_predictive_density M query (Some ev) s))
   \<and> (search_node (tree M) (root M) = Some r \<and> search_node (tree M) query = Some q
        \<and> search_node (tree M) (prior_root M) = Some pn
        \<and> length ev \<le> length (barcodes M) \<and> (\<forall>row\<in>set ev. length row = n_latent M)
      \<longrightarrow> (\<exists>s0 s1. initialize_messages M ev (barcodes M) (n_latent M) (initialize_visit M s) = Inr s0
             \<and> perform_message_passing M q (length (mu (s0 r))) True s0 = (None, s1)
             \<and> posterior_predictive_density M query (Some ev) s
                  = (Inr (mu (s1 q), nu (s1 q)), s1)))
   \<and> (search_node (tree M) (root M) = Some r
      \<longrightarrow> posterior_predictive_density M query None s
            = query_pass M query r (initialize_visit M s))"
proof (intro conjI allI impI)
  fix s'
  let ?i = "\<lambda>s. initialize_messages M ev (barcodes M) (n_latent M) (initialize_visit M s)"
  show "fst (posterior_predictive_density M query (Some ev) s')
          = fst (posterior_predictive_density M query (Some ev) s)"
  proof (cases "search_node (tree M) (root M)")
    case None
    then show ?thesis by (simp add: posterior_predictive_density_def)
  next
    case (Some r)
    then have r: "is_node (tree M) r" by (rule search_is_node)
    show ?thesis
    proof (cases "?i s")
      case (Inl e)
      from initialize_error [OF this] have "?i s' = Inl e" .
      with Inl Some show ?thesis
        by (simp add: posterior_predictive_density_def query_messages_def)
    next
      case (Inr s0)
      have "\<exists>s0'. ?i s' = Inr s0'"
      proof (cases "?i s'")
        case (Inl e)
        from initialize_error [OF this] have "?i s = Inl e" .
        with Inr show ?thesis by simp
      next
        case (Inr s0')
        then show ?thesis by blast
      qed
      then obtain s0' where s0': "?i s' = Inr s0'" by blast
      have "\<forall>p. is_node (tree M) p \<longrightarrow> s0' p = s0 p"
        using initialize_agree [OF s0' Inr] by blast
      from query_pass_agree [OF r this] Inr s0' Some show ?thesis
        by (simp add: posterior_predictive_density_def query_messages_def)
    qed
  qed
next
  assume a: "search_node (tree M) (root M) = Some r \<and> search_node (tree M) query = Some q
        \<and> search_node (tree M) (prior_root M) = Some pn
        \<and> length ev \<le> length (barcodes M) \<and> (\<forall>row\<in>set ev. length row = n_latent M)"
  then obtain s0 where s0: "initialize_messages M ev (barcodes M) (n_latent M) (initialize_visit M s) = Inr s0"
    by (auto simp: initialize_messages_def Let_def)
  from a have q: "is_node (tree M) q" by (auto dest: search_is_node)
  have wf: "\<forall>p. is_node (tree M) p \<longrightarrow> well_formed (n_latent M) (s0 p)"
    using initialize_well_formed [OF s0] a by blast
  obtain e s1 where p: "perform_message_passing M q (length (mu (s0 r))) True s0 = (e, s1)"
    by (rule prod.exhaust)
  from pass_returns [OF q _ wf, of pn "length (mu (s0 r))" True] a p have e: "e = None" by simp
  have "posterior_predictive_density M query (Some ev) s = (Inr (mu (s1 q), nu (s1 q)), s1)"
    using a s0 p e by (simp add: posterior_predictive_density_def query_messages_def query_pass_def)
  with s0 p e show "\<exists>s0 s1. initialize_messages M ev (barcodes M) (n_latent M) (initialize_visit M s) = Inr s0
             \<and> perform_message_passing M q (length (mu (s0 r))) True s0 = (None, s1)
             \<and> posterior_predictive_density M query (Some ev) s
                  = (Inr (mu (s1 q), nu (s1 q)), s1)"
    by blast
next
  assume "search_node (tree M) (root M) = Some r"
  then show "posterior_predictive_density M query None s
               = query_pass M query r (initialize_visit M s)"
    by (simp add: posterior_predictive_density_def query_messages_def)
qed

lemma example_name_at:
  "name_at (tree example_model) [] = ''prior_root''" "name_at (tree example_model) [0] = ''r''"
  "name_at (tree example_model) [0, 0] = ''a''" "name_at (tree example_model) [0, Suc 0] = ''b''"
  by code_simp+

theorem posterior_from_evidence_witness:
  "fst (posterior_predictive_density example_model ''a'' (Some [[0], [2]])
          ((\<lambda>p. blank)([0, 1] := blank\<lparr>nu := 7, mu := [5]\<rparr>)))
     = fst (posterior_predictive_density example_model ''a'' (Some [[0], [2]]) (\<lambda>p. blank))
   \<and> (\<exists>m n. fst (posterior_predictive_density example_model ''a'' (Some [[0], [2]]) (\<lambda>p. blank))
               = Inr (m, n))
   \<and> fst (posterior_predictive_density example_model ''a'' (Some [[0], [2]]) (\<lambda>p. blank))
       = Inr ([1], 3 / 2)"
proof -
  have hyp: "search_node (tree example_model) (root example_model) = Some [0]
        \<and> search_node (tree example_model) ''a'' = Some [0, 0]
        \<and> search_node (tree example_model) (prior_root example_model) = Some []
        \<and> length [[0], [2 :: real]] \<le> length (barcodes example_model)
        \<and> (\<forall>row\<in>set [[0], [2 :: real]]. length row = n_latent example_model)"
    by (simp add: example_search example_fields)
  have val: "fst (posterior_predictive_density example_model ''a'' (Some [[0], [2]]) (\<lambda>p. blank))
               = Inr ([1], 3 / 2)"
    by (simp add: posterior_predictive_density_def query_messages_def query_pass_def
        initialize_visit_def initialize_messages_def example_name_at example_simps blank_def)
  from posterior_from_evidence [of example_model "''a''" "[[0], [2]]" "\<lambda>p. blank" "[0]" "[0, 0]" "[]"]
    hyp val
  show ?thesis by (metis fst_conv)
qed

subsection \<open>The normalising constant of a node\<close>

lemma sum_sq_diff_self: "sum_sq (map2 (-) a a) = 0"
  by (induction a) (simp_all add: sum_sq_def)




lemmas pass_eval =
  perform_message_passing.simps update_node_def combine_def tensor_iadd_def tensor_sub_def
  find_t_def product_without_def inner_loop_def sum_sq_def Let_def enumerate_eq_zip
  forward_start_def initialize_visit_def initialize_messages_def

lemma example_chain_facts:
  "search_node (tree example_chain) ''prior_root'' = Some []"
  "incident_nodes (tree example_chain) [0] = [[0, 0], [0, Suc 0], []]"
  "incident_nodes (tree example_chain) [0, 0] = [[0, 0, 0], [0]]"
  "incident_nodes (tree example_chain) [0, Suc 0] = [[0, Suc 0, 0], [0]]"
  "incident_nodes (tree example_chain) [0, 0, 0] = [[0, 0]]"
  "incident_nodes (tree example_chain) [0, Suc 0, 0] = [[0, Suc 0]]"
  "is_node (tree example_chain) []" "is_node (tree example_chain) [0]"
  "is_node (tree example_chain) [0, 0]" "is_node (tree example_chain) [0, Suc 0]"
  "is_node (tree example_chain) [0, 0, 0]" "is_node (tree example_chain) [0, Suc 0, 0]"
  "name_at (tree example_chain) [] = ''prior_root''" "name_at (tree example_chain) [0] = ''r''"
  "name_at (tree example_chain) [0, 0] = ''A''" "name_at (tree example_chain) [0, Suc 0] = ''B''"
  "name_at (tree example_chain) [0, 0, 0] = ''a''" "name_at (tree example_chain) [0, Suc 0, 0] = ''b''"
  by code_simp+

lemma example_chain_fields:
  "prior_root example_chain = ''prior_root''" "barcodes example_chain = [''a'', ''b'']"
  "n_latent example_chain = 2"
  by (simp_all add: example_chain_def TreeVAE_def)

lemma example_chain_pass:
  "(case forward_start example_chain [[0, 0], [1, 1]] (\<lambda>p. blank) of
      Inl e \<Rightarrow> False
    | Inr s0 \<Rightarrow>
        fst (perform_message_passing example_chain [0] 2 False s0) = None
      \<and> nu (snd (perform_message_passing example_chain [0] 2 False s0) [0, 0]) = 1
      \<and> nu (snd (perform_message_passing example_chain [0] 2 False s0) [0, 1]) = 1
      \<and> mu (snd (perform_message_passing example_chain [0] 2 False s0) [0, 0]) = [0, 0]
      \<and> mu (snd (perform_message_passing example_chain [0] 2 False s0) [0, 1]) = [1, 1]
      \<and> log_z (snd (perform_message_passing example_chain [0] 2 False s0) [0])
          = - ln (2 * pi) - ln 4 - 0.25)"
  by (simp add: pass_eval example_chain_facts example_chain_fields blank_def)


lemma example_star_facts:
  "search_node (tree example_star) ''prior_root'' = Some []"
  "incident_nodes (tree example_star) [0] = [[0, 0], [0, Suc 0], [0, 2], []]"
  "incident_nodes (tree example_star) [0, 0] = [[0]]"
  "incident_nodes (tree example_star) [0, Suc 0] = [[0]]"
  "incident_nodes (tree example_star) [0, 2] = [[0]]"
  "is_node (tree example_star) []" "is_node (tree example_star) [0]"
  "is_node (tree example_star) [0, 0]" "is_node (tree example_star) [0, Suc 0]"
  "is_node (tree example_star) [0, 2]"
  "name_at (tree example_star) [] = ''prior_root''" "name_at (tree example_star) [0] = ''r''"
  "name_at (tree example_star) [0, 0] = ''a''" "name_at (tree example_star) [0, Suc 0] = ''b''"
  "name_at (tree example_star) [0, 2] = ''c''"
  by code_simp+

lemma example_star_fields:
  "prior_root example_star = ''prior_root''" "barcodes example_star = [''a'', ''b'', ''c'']"
  "n_latent example_star = 1"
  by (simp_all add: example_star_def TreeVAE_def)

text \<open>
  C1 at a node with three incoming messages: the tree \<open>r(a, b, c)\<close> under the prior root, the
  latent codes \<open>[0]\<close>, \<open>[1]\<close>, \<open>[0]\<close> at the leaves (\<open>d = 1\<close>), and the pass of \<open>forward\<close>,
  rooted at \<open>r\<close> with the prior excluded. The code sets \<open>log_z\<close> of \<open>r\<close> to
  \<open>-log(2 pi) - log(3)/2 - 1/6\<close>: its \<open>Z_3\<close> has one term per \<open>j\<close>, pairing message \<open>j\<close> with the
  last message only. The sum over all ordered pairs gives \<open>-log(2 pi) - log(3)/2 - 2/3\<close>.
\<close>

theorem log_z_misses_pairs:
  "(case forward_start example_star [[0], [1], [0]] (\<lambda>p. blank) of
      Inl e \<Rightarrow> False
    | Inr s0 \<Rightarrow>
        fst (perform_message_passing example_star [0] 1 False s0) = None
      \<and> map (snd (perform_message_passing example_star [0] 1 False s0)) [[0, 0], [0, 1], [0, 2]]
          = [\<lparr>visited = True, nu = 0, mu = [0], log_z = 0\<rparr>,
             \<lparr>visited = True, nu = 0, mu = [1], log_z = 0\<rparr>,
             \<lparr>visited = True, nu = 0, mu = [0], log_z = 0\<rparr>]
      \<and> log_z (snd (perform_message_passing example_star [0] 1 False s0) [0])
          = - ln (2 * pi) - ln 3 / 2 - 1 / 6
      \<and> spec_log_z 1 (map (snd (perform_message_passing example_star [0] 1 False s0))
                         [[0, 0], [0, 1], [0, 2]])
          = - ln (2 * pi) - ln 3 / 2 - 2 / 3)"
  by (simp add: pass_eval example_star_facts example_star_fields blank_def
      spec_log_z_def spec_Z_3_def)

subsection \<open>The loops in closed form\<close>

lemma inner_loop_exact:
  assumes "2 \<le> length cnu"
  shows "inner_loop cnu j st =
           (Some (product_without cnu
                    [j, if j = length cnu - Suc 0 then length cnu - 2 else length cnu - Suc 0]),
            Some (length cnu - Suc 0))"
proof -
  let ?f = "\<lambda>h (prod_2 :: real option, h_old :: nat option).
              if h = j then (prod_2, Some h)
              else (Some (product_without cnu [j, h]), Some h)"
  from assms obtain m where n: "length cnu = Suc (Suc m)"
    by (metis Suc_le_D numeral_2_eq_2 Suc_le_mono Suc_leD le_Suc_ex add_Suc_right add_Suc)
  have up: "[0..<length cnu] = [0..<m] @ [m, Suc m]" unfolding n by simp
  obtain a b where ab: "fold ?f [0..<m] st = (a, b)" by (rule prod.exhaust)
  have "inner_loop cnu j st = ?f (Suc m) (?f m (a, b))"
    unfolding inner_loop_def up by (simp add: ab)
  also have "\<dots> = (Some (product_without cnu [j, if j = Suc m then m else Suc m]), Some (Suc m))"
    by (cases "Suc m = j") auto
  finally show ?thesis unfolding n by simp
qed

lemma outer_loop_exact:
  assumes "2 \<le> length inc" and "length cnu = length inc"
    and "\<forall>k\<in>set inc. well_formed len k" and "\<forall>j\<in>set js. j < length inc"
  shows "outer_loop inc cnu js (Z, p, h) =
           Inr (Z + (\<Sum>j\<leftarrow>js.
                  product_without cnu
                    [j, if j = length inc - Suc 0 then length inc - 2 else length inc - Suc 0]
                  * sum_sq (map2 (-) (mu (inc ! (length inc - Suc 0))) (mu (inc ! j)))))"
  using assms(4)
proof (induction js arbitrary: Z p h)
  case Nil
  then show ?case by simp
next
  case (Cons j js)
  from assms(1,2) have "2 \<le> length cnu" by simp
  note il = inner_loop_exact [OF this, of j "(p, h)", unfolded assms(2)]
  have "length inc - Suc 0 < length inc" "j < length inc" using assms(1) Cons.prems by simp_all
  then have "length (mu (inc ! (length inc - Suc 0))) = length (mu (inc ! j))"
    using assms(3) by (simp add: well_formed_def)
  then have ts: "tensor_sub (mu (inc ! (length inc - Suc 0))) (mu (inc ! j))
                   = Inr (map2 (-) (mu (inc ! (length inc - Suc 0))) (mu (inc ! j)))"
    by (simp add: tensor_sub_def)
  from Cons.prems have "\<forall>j\<in>set js. j < length inc" by simp
  note ih = Cons.IH [OF this]
  show ?case
    by (simp add: il ts ih del: inner_loop_def)
qed

text \<open>On well-formed messages the branch \<open>n >= 2\<close> sets \<open>log_z\<close> to \<open>Z_1 + Z_2\<close> plus the
  last-pair sum.\<close>

lemma update_node_log_z:
  assumes "2 \<le> length inc" and "\<forall>k\<in>set inc. well_formed len k" and "well_formed len m"
  shows "log_z (snd (update_node d m inc)) =
           - 0.5 * real (length inc - 1) * real d * ln (2 * pi)
           + - 0.5 * real d * ln (find_t (map (\<lambda>k. nu k + 1) inc))
           + last_pair_Z_3 inc"
proof -
  let ?n = "length inc"
  let ?cnu = "map (\<lambda>k. nu k + 1) inc"
  let ?g = "\<lambda>j. product_without ?cnu [j, if j = ?n - Suc 0 then ?n - 2 else ?n - Suc 0]
               * sum_sq (map2 (-) (mu (inc ! (?n - Suc 0))) (mu (inc ! j)))"
  from assms(3) have m: "length (mu m) = len" by (simp add: well_formed_def)
  from assms(1) have ne: "inc \<noteq> []" by auto
  obtain e m1 where acc: "accumulate inc m = (e, m1)" by (rule prod.exhaust)
  from accumulate_ok [OF assms(2) m] acc have e: "e = None" by simp
  from accumulate_nu_pos [OF assms(2,3) ne] acc have pos: "0 < nu m1" by simp
  have "\<forall>x\<in>set ?cnu. 0 < x" using assms(2) by (auto simp: well_formed_def)
  then have "0 < find_t ?cnu" using ne by (intro find_t_pos) simp_all
  then have t: "find_t ?cnu \<noteq> 0" by simp
  have "\<forall>j\<in>set [0..<?n]. j < ?n" by simp
  from outer_loop_exact [OF assms(1) _ assms(2) this, of ?cnu 0 None None]
  have Z: "outer_loop inc ?cnu [0..<?n] (0, None, None) = Inr (\<Sum>j\<leftarrow>[0..<?n]. ?g j)"
    by simp
  have up: "[0..<?n] = [0..<?n - 1] @ [?n - 1]"
    using assms(1) by (cases ?n) simp_all
  have "(\<Sum>j\<leftarrow>[0..<?n]. ?g j) = (\<Sum>j\<leftarrow>[0..<?n - 1]. ?g j) + ?g (?n - 1)"
    by (subst up) simp
  also have "?g (?n - 1) = 0" by (simp add: sum_sq_diff_self)
  also have "(\<Sum>j\<leftarrow>[0..<?n - 1]. ?g j)
      = (\<Sum>j\<leftarrow>[0..<?n - 1]. product_without ?cnu [j, ?n - 1]
            * sum_sq (map2 (-) (mu (inc ! (?n - 1))) (mu (inc ! j))))"
    by (rule arg_cong [where f = sum_list], rule map_cong) auto
  finally have sum: "(\<Sum>j\<leftarrow>[0..<?n]. ?g j)
      = (\<Sum>j\<leftarrow>[0..<?n - 1]. product_without ?cnu [j, ?n - 1]
            * sum_sq (map2 (-) (mu (inc ! (?n - 1))) (mu (inc ! j))))"
    by simp
  have "update_node d m inc = combine d m inc"
    using assms(1) by (auto simp: update_node_def Let_def)
  then show ?thesis
    using pos t
    by (simp add: combine_def acc e Z sum last_pair_Z_3_def Let_def del: upt_Suc)
qed

subsection \<open>The prior root under an excluded prior\<close>

lemma example_traverse:
  "traverse (tree example_model) = [[], [0], [0, 0], [0, Suc 0]]"
  by code_simp

lemmas pass_obj_eval =
  perform_message_passing_obj.simps update_node_obj_def combine_obj_def tensor_iadd_def
  tensor_sub_def find_t_def product_without_def inner_loop_def sum_sq_def Let_def enumerate_eq_zip
  message_of_def new_tensor_def

text \<open>The update of a node assigns to the fields of that node only.\<close>

lemma accumulate_obj_cells:
  "q \<noteq> v \<Longrightarrow> cells (fst (snd (accumulate_obj ks v h cnu))) q = cells h q"
  by (induction ks arbitrary: h cnu) (auto split: sum.splits)

lemma combine_obj_cells: "q \<noteq> v \<Longrightarrow> cells (snd (combine_obj d v inc h)) q = cells h q"
  using accumulate_obj_cells [of q v inc h "[]"]
  by (auto simp: combine_obj_def Let_def split: prod.splits option.splits sum.splits)

lemma update_node_obj_cells: "q \<noteq> v \<Longrightarrow> cells (snd (update_node_obj d v inc h)) q = cells h q"
  by (simp add: update_node_obj_def Let_def combine_obj_cells)

lemma visit_obj_skip:
  "\<not> (\<not> visited_c (cells h w) \<and> (w \<noteq> pn \<or> w = pn \<and> ip)) \<Longrightarrow>
   visit_incident_obj M (w # ws) d ip pn h inc = visit_incident_obj M ws d ip pn h inc"
  by auto

lemma visit_obj_call:
  assumes "\<not> visited_c (cells h w) \<and> (w \<noteq> pn \<or> w = pn \<and> ip)"
    and "perform_message_passing_obj M w d ip h = (r, h1)"
  shows "visit_incident_obj M (w # ws) d ip pn h inc =
           (case r of
              Some e \<Rightarrow> (Some e, h1, inc)
            | None \<Rightarrow> visit_incident_obj M ws d ip pn h1 (inc @ [w]))"
  using assms by (auto split: option.splits)

lemma pass_obj_unfold:
  assumes "search_node (tree M) (prior_root M) = Some pn"
    and "visit_incident_obj M (incident_nodes (tree M) v) d ip pn
           (h\<lparr>cells := (cells h)(v := (cells h v)\<lparr>visited_c := True\<rparr>)\<rparr>) [] = (r, h1, inc)"
  shows "perform_message_passing_obj M v d ip h =
           (case r of Some e \<Rightarrow> (Some e, h1) | None \<Rightarrow> update_node_obj d v inc h1)"
  using assms by (simp add: perform_message_passing_obj.simps split: option.splits)

text \<open>With the prior excluded, no field of the prior root is assigned: its flag, its \<open>nu\<close>
  and \<open>log_z\<close>, and the tensor it refers to stay what they were.\<close>

lemma pass_obj_prior_fields_aux:
  "\<forall>pn. search_node (tree M) (prior_root M) = Some pn \<longrightarrow> v \<noteq> pn \<longrightarrow>
     cells (snd (perform_message_passing_obj M v d False h)) pn = cells h pn"
  "search_node (tree M) (prior_root M) = Some pn \<Longrightarrow>
     cells (fst (snd (visit_incident_obj M ws d False pn h inc))) pn = cells h pn"
proof (induct M v d "False" h and M ws d "False" pn h inc
    rule: perform_message_passing_obj_visit_incident_obj.induct)
  case (1 M root_node d h)
  show ?case
  proof (intro allI impI)
    fix pn assume pn: "search_node (tree M) (prior_root M) = Some pn" and ne: "root_node \<noteq> pn"
    obtain r h1 inc where v: "visit_incident_obj M (incident_nodes (tree M) root_node) d False pn
        (h\<lparr>cells := (cells h)(root_node := (cells h root_node)\<lparr>visited_c := True\<rparr>)\<rparr>) []
          = (r, h1, inc)"
      by (rule prod_cases3)
    from "1.hyps" [OF pn pn] ne have "cells h1 pn = cells h pn"
      unfolding v by simp
    then show "cells (snd (perform_message_passing_obj M root_node d False h)) pn = cells h pn"
      unfolding pass_obj_unfold [OF pn v] using ne
      by (cases r) (simp_all add: update_node_obj_cells)
  qed
next
  case (2 M d prior_node h incoming)
  show ?case by simp
next
  case (3 M node nodes d prior_node h incoming)
  show ?case
  proof (cases "\<not> visited_c (cells h node)
      \<and> (node \<noteq> prior_node \<or> node = prior_node \<and> False)")
    case True
    then have ne: "node \<noteq> prior_node" by simp
    obtain r h1 where c: "perform_message_passing_obj M node d False h = (r, h1)"
      by (rule prod.exhaust)
    from "3.hyps"(1) [OF True] "3.prems" ne have h1: "cells h1 prior_node = cells h prior_node"
      unfolding c by simp
    show ?thesis
    proof (cases r)
      case None
      from "3.hyps"(2) [OF True c [symmetric] None "3.prems"] h1 show ?thesis
        unfolding visit_obj_call [of h node prior_node False, OF True c] None by simp
    next
      case (Some e)
      with h1 show ?thesis
        unfolding visit_obj_call [of h node prior_node False, OF True c] by simp
    qed
  next
    case False
    from "3.hyps"(3) [OF False "3.prems"] show ?thesis
      unfolding visit_obj_skip [of h node prior_node False, OF False] .
  qed
qed

lemma pass_obj_prior_fields:
  "search_node (tree M) (prior_root M) = Some pn \<Longrightarrow> v \<noteq> pn \<Longrightarrow>
     cells (snd (perform_message_passing_obj M v d False h)) pn = cells h pn"
  using pass_obj_prior_fields_aux(1) [of M v d h] by blast

text \<open>
  C8 on tensor objects. After \<open>posterior_predictive_density('prior_root', [[0.], [2.]])\<close> on
  the tree \<open>r(a, b)\<close> the prior root refers to the tensor of \<open>r\<close> (it had one incoming message,
  so \<open>root_node.mu = k.mu\<close>). After \<open>initialize_visit()\<close>, the pass
  \<open>perform_message_passing(r, 1, False)\<close> returns, does not visit the prior root and assigns
  none of its fields; but \<open>r\<close> updates its tensor in place, and the \<open>mu\<close> of the prior root goes
  from \<open>[1]\<close> to \<open>[6/5]\<close> with the prior excluded.
\<close>

theorem prior_root_mu_changes_when_excluded:
  "search_node (tree example_model) (prior_root example_model) = Some []
   \<and> mu_ref (cells shared_before []) = mu_ref (cells shared_before [0])
   \<and> message_of shared_before [] = \<lparr>visited = False, nu = 3 / 2, mu = [1], log_z = 0\<rparr>
   \<and> fst shared_after = None
   \<and> cells (snd shared_after) [] = cells shared_before []
   \<and> message_of (snd shared_after) [] = \<lparr>visited = False, nu = 3 / 2, mu = [6 / 5], log_z = 0\<rparr>"
  by (simp add: shared_after_def shared_before_def posterior_predictive_density_obj_def
      query_messages_obj_def query_pass_obj_def initialize_visit_obj_def
      initialize_messages_obj_def empty_heap_def example_traverse example_name_at example_simps
      pass_obj_eval)

end
